theory Spec2Isabelle
  imports Complex_Main "HOL-Library.Stream"
begin

section \<open>The constraint generator (\<open>generateSpecialArray\<close>, astronum/captcha.js)\<close>

text \<open>
  JavaScript numbers are modelled as mathematical numbers: array elements as \<open>int\<close>,
  the result of \<open>Math.random()\<close> as a \<open>real\<close>. The source of randomness is an explicit
  stream of the successive results of \<open>Math.random()\<close>; every call consumes its head.
\<close>

definition getRandomInt :: "real \<Rightarrow> int \<Rightarrow> int \<Rightarrow> int" where
  \<comment> \<open>\<open>Math.floor(Math.random() * (max - min + 1)) + min\<close>, \<open>u\<close> the random draw\<close>
  "getRandomInt u mn mx = \<lfloor>u * of_int (mx - mn + 1)\<rfloor> + mn"

text \<open>The \<open>for\<close> loop that pushes \<open>arrayLength\<close> draws; returns the array and the rest of
  the random stream.\<close>

fun fill :: "nat \<Rightarrow> int \<Rightarrow> real stream \<Rightarrow> int list \<times> real stream" where
  "fill 0 maxSum rnd = ([], rnd)"
| "fill (Suc n) maxSum rnd =
     (case fill n maxSum (stl rnd) of
        (arr, rnd') \<Rightarrow> (getRandomInt (shd rnd) 1 (maxSum - 1) # arr, rnd'))"

text \<open>The three nested loops of the sum check. The flag \<open>ok\<close> is threaded through the two
  outer loops, whose conditions test it; the innermost loop leaves by \<open>break\<close>.\<close>

function okK :: "int list \<Rightarrow> int \<Rightarrow> nat \<Rightarrow> nat \<Rightarrow> nat \<Rightarrow> bool" where
  "okK arr maxSum i j k =
     (if k < length arr
      then (if arr ! i + arr ! j + arr ! k \<ge> maxSum then False
            else okK arr maxSum i j (Suc k))
      else True)"
  by pat_completeness auto
termination
  by (relation "measure (\<lambda>(arr, maxSum, i, j, k). length arr - k)") auto

function okJ :: "int list \<Rightarrow> int \<Rightarrow> nat \<Rightarrow> nat \<Rightarrow> bool \<Rightarrow> bool" where
  "okJ arr maxSum i j ok =
     (if j < length arr \<and> ok
      then okJ arr maxSum i (Suc j) (okK arr maxSum i j (Suc j))
      else ok)"
  by pat_completeness auto
termination
  by (relation "measure (\<lambda>(arr, maxSum, i, j, ok). length arr - j)") auto

function okI :: "int list \<Rightarrow> int \<Rightarrow> nat \<Rightarrow> bool \<Rightarrow> bool" where
  "okI arr maxSum i ok =
     (if i < length arr \<and> ok
      then okI arr maxSum (Suc i) (okJ arr maxSum i (Suc i) ok)
      else ok)"
  by pat_completeness auto
termination
  by (relation "measure (\<lambda>(arr, maxSum, i, ok). length arr - i)") auto

text \<open>The three nested loops that count the triples in which two elements sum to the
  third.\<close>

definition sums_to :: "int \<Rightarrow> int \<Rightarrow> int \<Rightarrow> bool" where
  \<comment> \<open>\<open>(a + b === c) || (a + c === b) || (b + c === a)\<close>\<close>
  "sums_to a b c = (a + b = c \<or> a + c = b \<or> b + c = a)"

function countK :: "int list \<Rightarrow> nat \<Rightarrow> nat \<Rightarrow> nat \<Rightarrow> nat \<Rightarrow> nat" where
  "countK arr i j k count =
     (if k < length arr
      then countK arr i j (Suc k)
             (if sums_to (arr ! i) (arr ! j) (arr ! k) then count + 1 else count)
      else count)"
  by pat_completeness auto
termination
  by (relation "measure (\<lambda>(arr, i, j, k, count). length arr - k)") auto

function countJ :: "int list \<Rightarrow> nat \<Rightarrow> nat \<Rightarrow> nat \<Rightarrow> nat" where
  "countJ arr i j count =
     (if j < length arr
      then countJ arr i (Suc j) (countK arr i j (Suc j) count)
      else count)"
  by pat_completeness auto
termination
  by (relation "measure (\<lambda>(arr, i, j, count). length arr - j)") auto

function countI :: "int list \<Rightarrow> nat \<Rightarrow> nat \<Rightarrow> nat" where
  "countI arr i count =
     (if i < length arr
      then countI arr (Suc i) (countJ arr i (Suc i) count)
      else count)"
  by pat_completeness auto
termination
  by (relation "measure (\<lambda>(arr, i, count). length arr - i)") auto

text \<open>The \<open>while (true)\<close> loop: a candidate is drawn, and returned when it passes both
  checks; otherwise the loop starts over with the rest of the random stream. The loop has
  no bound, so the function is partial: \<open>None\<close> stands for not returning.\<close>

partial_function (option) generateSpecialArray ::
  "nat \<Rightarrow> int \<Rightarrow> real stream \<Rightarrow> int list option" where
  "generateSpecialArray arrayLength maxSum rnd =
     (let arr = fst (fill arrayLength maxSum rnd);
          rnd' = snd (fill arrayLength maxSum rnd) in
      if \<not> okI arr maxSum 0 True then generateSpecialArray arrayLength maxSum rnd'
      else if countI arr 0 0 = 1 then Some arr
      else generateSpecialArray arrayLength maxSum rnd')"

declare okK.simps [simp del] okJ.simps [simp del] okI.simps [simp del]
declare countK.simps [simp del] countJ.simps [simp del] countI.simps [simp del]

text \<open>For the statements and proofs: the index triples the counting loops count, as
  lists; and a 3-element subset of the sequence that solves the equation, as a set of three
  positions of the array whose elements satisfy \<open>a + b = c\<close> for some assignment of the
  three roles.\<close>

definition solK :: "int list \<Rightarrow> nat \<Rightarrow> nat \<Rightarrow> nat \<Rightarrow> (nat \<times> nat \<times> nat) list" where
  "solK arr i j k =
     map (\<lambda>k'. (i, j, k')) (filter (\<lambda>k'. sums_to (arr ! i) (arr ! j) (arr ! k')) [k..<length arr])"

definition solJ :: "int list \<Rightarrow> nat \<Rightarrow> nat \<Rightarrow> (nat \<times> nat \<times> nat) list" where
  "solJ arr i j = concat (map (\<lambda>j'. solK arr i j' (Suc j')) [j..<length arr])"

definition solI :: "int list \<Rightarrow> nat \<Rightarrow> (nat \<times> nat \<times> nat) list" where
  "solI arr i = concat (map (\<lambda>i'. solJ arr i' (Suc i')) [i..<length arr])"

definition is_sum_triple :: "int list \<Rightarrow> nat set \<Rightarrow> bool" where
  "is_sum_triple arr S \<longleftrightarrow>
     S \<subseteq> {..<length arr} \<and> card S = 3 \<and>
     (\<exists>a\<in>S. \<exists>b\<in>S. \<exists>c\<in>S. a \<noteq> b \<and> a \<noteq> c \<and> b \<noteq> c \<and> arr ! a + arr ! b = arr ! c)"

text \<open>Example draws: six draws that give the candidate 50, 50, 50, 50, 50, 50, which is
  rejected, then six that give 52, 27, 1, 15, 18, 16.\<close>

definition example_draws_rest :: "real stream" where
  "example_draws_rest = [51/99, 26/99, 0, 14/99, 17/99, 15/99] @- sconst 0"

definition example_draws :: "real stream" where
  "example_draws = [1/2, 1/2, 1/2, 1/2, 1/2, 1/2] @- example_draws_rest"

section \<open>The event loop (\<open>EventLoop\<close>, astronum/captcha.js)\<close>

text \<open>
  The closure's variables are the fields of the record \<open>EventLoop\<close>; every function of
  the closure takes the state and returns the new one. The fields of the class
  \<open>EventHandler\<close> are prefixed with \<open>h\<close> (\<open>id\<close> and \<open>type\<close> are taken). An id is a number or
  \<open>null\<close>, a code is a key code, a point (the press position of a drag) or \<open>null\<close>.

  A callback is a value of an arbitrary type \<open>'f\<close>: what a callback does is outside the
  loop, and \<open>run\<close> returns the list of the calls it makes, in order. A callback can reach
  the loop only through the functions the loop exports (\<open>addKeyEvent\<close>, \<open>addMouseEvent\<close>,
  \<open>addTouchEvent\<close>, \<open>addTickEvent\<close>, \<open>pause\<close>, \<open>resume\<close>). None of them changes \<open>handlers\<close> or
  takes an element out of a list, \<open>run\<close> reads \<open>paused\<close> and \<open>resumeTimeRemaining\<close> only
  before the first call, and \<open>forEach\<close> visits only the elements present when it starts;
  so the calls of one pass and the handler list after it are the same as when the
  callback's own calls of these functions happen right after the pass.
\<close>

datatype EventTypes = NONE | KEY | MOUSE | TOUCH

record Point =
  ptX :: real
  ptY :: real

record Rect =
  rleft :: real
  rright :: real
  rtop :: real
  rbottom :: real

datatype Code = KeyCode int | PosCode Point | NullCode

record 'f EventHandler =
  hid :: "nat option"
  htype :: EventTypes
  hcode :: Code
  hfn :: 'f
  hrepeat :: bool

record 'f EventLoop =
  handlers :: "'f EventHandler list"
  keyListeners :: "'f EventHandler list"
  mouseListeners :: "'f EventHandler list"
  tickListeners :: "'f list"
  nextId :: nat
  curPos :: "Point option"
  paused :: bool
  resumeTimeRemaining :: real

datatype 'f call = TickCall 'f | HandlerCall "'f EventHandler" "Point option"

datatype UIEvent = MouseEvent Point | TouchEvent "Point list"

definition EVENT_INTERVAL :: real where "EVENT_INTERVAL = 5.0"

definition RESUME_INTERVAL :: real where "RESUME_INTERVAL = 100.0"

definition EventLoop :: "'f EventLoop" where
  "EventLoop = \<lparr>handlers = [], keyListeners = [], mouseListeners = [], tickListeners = [],
     nextId = 0, curPos = None, paused = False, resumeTimeRemaining = 0\<rparr>"

definition add :: "EventTypes \<Rightarrow> Code \<Rightarrow> 'f \<Rightarrow> bool \<Rightarrow> 'f EventLoop \<Rightarrow> nat \<times> 'f EventLoop" where
  "add type code fn repeat s =
     (let curId = nextId s + 1 in
      (curId, s\<lparr>nextId := nextId s + 1,
                handlers := handlers s @
                  [\<lparr>hid = Some curId, htype = type, hcode = code, hfn = fn, hrepeat = repeat\<rparr>]\<rparr>))"

text \<open>The loops of \<open>remove\<close>: each stops at the first entry with the id (\<open>break\<close>). The
  first takes the entry out of \<open>handlers\<close>, the other two set the id of a listener back to
  \<open>null\<close>.\<close>

fun splice_first :: "nat option \<Rightarrow> 'f EventHandler list \<Rightarrow> 'f EventHandler list" where
  "splice_first i [] = []"
| "splice_first i (h # hs) = (if hid h = i then hs else h # splice_first i hs)"

fun clear_first :: "nat option \<Rightarrow> 'f EventHandler list \<Rightarrow> 'f EventHandler list" where
  "clear_first i [] = []"
| "clear_first i (l # ls) = (if hid l = i then l\<lparr>hid := None\<rparr> # ls else l # clear_first i ls)"

definition remove :: "nat option \<Rightarrow> 'f EventLoop \<Rightarrow> 'f EventLoop" where
  "remove i s = s\<lparr>handlers := splice_first i (handlers s),
                  keyListeners := clear_first i (keyListeners s),
                  mouseListeners := clear_first i (mouseListeners s)\<rparr>"

text \<open>The \<open>forEach\<close> over the copy \<open>newHandlers\<close> of the handler list: the callback is called
  with the handler's code and the current drag position, and a handler that does not
  repeat is removed from the live list.\<close>

fun dispatch :: "'f EventHandler list \<Rightarrow> 'f EventLoop \<Rightarrow> 'f EventLoop \<times> 'f call list" where
  "dispatch [] s = (s, [])"
| "dispatch (handler # rest) s =
     (let s' = (if \<not> hrepeat handler then remove (hid handler) s else s);
          (s'', calls) = dispatch rest s'
      in (s'', HandlerCall handler (curPos s) # calls))"

definition run :: "'f EventLoop \<Rightarrow> 'f EventLoop \<times> 'f call list" where
  "run s =
     (if paused s \<or> resumeTimeRemaining s > 0
      then ((if resumeTimeRemaining s > 0
             then s\<lparr>resumeTimeRemaining := resumeTimeRemaining s - EVENT_INTERVAL\<rparr>
             else s), [])
      else (let ticks = map TickCall (tickListeners s);
                newHandlers = handlers s;
                (s', calls) = dispatch newHandlers s
            in (s', ticks @ calls)))"

text \<open>\<open>!listener.id\<close> holds for \<open>null\<close> and for 0. \<open>listener.code == key\<close> compares a code
  with a number.\<close>

definition falsy :: "nat option \<Rightarrow> bool" where
  "falsy i = (case i of None \<Rightarrow> True | Some n \<Rightarrow> n = 0)"

definition code_is_key :: "Code \<Rightarrow> int \<Rightarrow> bool" where
  "code_is_key c key = (case c of KeyCode n \<Rightarrow> n = key | _ \<Rightarrow> False)"

text \<open>The loop of \<open>onKeyDown\<close> over \<open>keyListeners\<close>: a matching listener without an id gets
  the id of a new handler. \<open>key\<close> is \<open>ev.charCode || ev.keyCode\<close>.\<close>

fun arm_keys :: "int \<Rightarrow> 'f EventHandler list \<Rightarrow> 'f EventLoop \<Rightarrow>
    'f EventHandler list \<times> 'f EventLoop" where
  "arm_keys key [] s = ([], s)"
| "arm_keys key (listener # ls) s =
     (if htype listener = KEY \<and> code_is_key (hcode listener) key \<and> falsy (hid listener)
      then (let (i, s') = add (htype listener) (hcode listener) (hfn listener) (hrepeat listener) s;
                (ls', s'') = arm_keys key ls s'
            in (listener\<lparr>hid := Some i\<rparr> # ls', s''))
      else (let (ls', s'') = arm_keys key ls s in (listener # ls', s'')))"

definition onKeyDown :: "int \<Rightarrow> 'f EventLoop \<Rightarrow> 'f EventLoop" where
  "onKeyDown key s = (let (ls, s') = arm_keys key (keyListeners s) s in s'\<lparr>keyListeners := ls\<rparr>)"

definition onKeyUp :: "int \<Rightarrow> 'f EventLoop \<Rightarrow> 'f EventLoop" where
  "onKeyUp key s =
     (case find (\<lambda>handler. htype handler = KEY \<and> code_is_key (hcode handler) key) (handlers s) of
        None \<Rightarrow> s
      | Some handler \<Rightarrow> remove (hid handler) s)"

text \<open>A mouse event has no \<open>touches\<close>; a touch event has the list of its contact points.
  The canvas' bounding rectangle at the time of the event comes with the event.\<close>

definition getCoordinates :: "UIEvent \<Rightarrow> Point option" where
  "getCoordinates ev =
     (case ev of
        MouseEvent p \<Rightarrow> Some p
      | TouchEvent touches \<Rightarrow> (if length touches = 1 then Some (touches ! 0) else None))"

definition isWithin :: "Point option \<Rightarrow> Rect \<Rightarrow> bool" where
  "isWithin p rect =
     (case p of
        None \<Rightarrow> False
      | Some q \<Rightarrow> ptX q \<ge> rleft rect \<and> ptX q \<le> rright rect \<and>
                  ptY q \<ge> rtop rect \<and> ptY q \<le> rbottom rect)"

fun arm_mouse :: "'f EventHandler list \<Rightarrow> 'f EventLoop \<Rightarrow>
    'f EventHandler list \<times> 'f EventLoop" where
  "arm_mouse [] s = ([], s)"
| "arm_mouse (listener # ls) s =
     (if (htype listener = MOUSE \<or> htype listener = TOUCH) \<and> falsy (hid listener)
      then (let (i, s') = add (htype listener)
                            (case curPos s of Some p \<Rightarrow> PosCode p | None \<Rightarrow> NullCode)
                            (hfn listener) (hrepeat listener) s;
                (ls', s'') = arm_mouse ls s'
            in (listener\<lparr>hid := Some i\<rparr> # ls', s''))
      else (let (ls', s'') = arm_mouse ls s in (listener # ls', s'')))"

definition onTouchStart :: "UIEvent \<Rightarrow> Rect \<Rightarrow> 'f EventLoop \<Rightarrow> 'f EventLoop" where
  "onTouchStart ev boundaries s =
     (let clientPos = getCoordinates ev in
      if clientPos = None then s
      else if isWithin clientPos boundaries
      then (let s1 = s\<lparr>curPos := clientPos\<rparr>;
                (ls, s2) = arm_mouse (mouseListeners s1) s1
            in s2\<lparr>mouseListeners := ls\<rparr>)
      else s)"

definition onTouchMove :: "UIEvent \<Rightarrow> Rect \<Rightarrow> 'f EventLoop \<Rightarrow> 'f EventLoop" where
  "onTouchMove ev boundaries s =
     (if curPos s = None then s
      else (let clientPos = getCoordinates ev in
            if isWithin clientPos boundaries then s\<lparr>curPos := clientPos\<rparr> else s))"

fun release :: "'f EventHandler list \<Rightarrow> 'f EventLoop \<Rightarrow> 'f EventLoop" where
  "release [] s = s"
| "release (handler # rest) s =
     release rest (if htype handler = TOUCH \<or> htype handler = MOUSE
                   then remove (hid handler) s else s)"

definition onTouchEnd :: "'f EventLoop \<Rightarrow> 'f EventLoop" where
  "onTouchEnd s =
     (let s1 = (if curPos s \<noteq> None then s\<lparr>curPos := None\<rparr> else s);
          newHandlers = handlers s1
      in release newHandlers s1)"

definition addKeyEvent :: "int \<Rightarrow> 'f \<Rightarrow> bool \<Rightarrow> 'f EventLoop \<Rightarrow> 'f EventLoop" where
  "addKeyEvent code fn repeat s =
     s\<lparr>keyListeners := keyListeners s @
        [\<lparr>hid = None, htype = KEY, hcode = KeyCode code, hfn = fn, hrepeat = repeat\<rparr>]\<rparr>"

definition addMouseEvent :: "'f \<Rightarrow> bool \<Rightarrow> 'f EventLoop \<Rightarrow> 'f EventLoop" where
  "addMouseEvent fn repeat s =
     s\<lparr>mouseListeners := mouseListeners s @
        [\<lparr>hid = None, htype = MOUSE, hcode = NullCode, hfn = fn, hrepeat = repeat\<rparr>]\<rparr>"

definition addTouchEvent :: "'f \<Rightarrow> bool \<Rightarrow> 'f EventLoop \<Rightarrow> 'f EventLoop" where
  "addTouchEvent fn repeat s =
     s\<lparr>mouseListeners := mouseListeners s @
        [\<lparr>hid = None, htype = TOUCH, hcode = NullCode, hfn = fn, hrepeat = repeat\<rparr>]\<rparr>"

definition addTickEvent :: "'f \<Rightarrow> 'f EventLoop \<Rightarrow> 'f EventLoop" where
  "addTickEvent fn s = s\<lparr>tickListeners := tickListeners s @ [fn]\<rparr>"

definition pause :: "'f EventLoop \<Rightarrow> 'f EventLoop" where
  "pause s = s\<lparr>paused := True, resumeTimeRemaining := 0\<rparr>"

definition resume :: "'f EventLoop \<Rightarrow> 'f EventLoop" where
  "resume s = s\<lparr>resumeTimeRemaining := RESUME_INTERVAL, paused := False\<rparr>"

text \<open>Everything that can happen to the loop: a call of an exported function, an input
  event of the page, or a tick of the interval timer. \<open>steps\<close> runs a list of them and
  returns the calls of each.\<close>

datatype 'f loop_op =
    AddKeyEvent int 'f bool | AddMouseEvent 'f bool | AddTouchEvent 'f bool | AddTickEvent 'f
  | Pause | Resume
  | KeyDown int | KeyUp int
  | TouchStart UIEvent Rect | TouchMove UIEvent Rect | TouchEnd
  | Tick

fun step :: "'f loop_op \<Rightarrow> 'f EventLoop \<Rightarrow> 'f EventLoop \<times> 'f call list" where
  "step (AddKeyEvent code fn repeat) s = (addKeyEvent code fn repeat s, [])"
| "step (AddMouseEvent fn repeat) s = (addMouseEvent fn repeat s, [])"
| "step (AddTouchEvent fn repeat) s = (addTouchEvent fn repeat s, [])"
| "step (AddTickEvent fn) s = (addTickEvent fn s, [])"
| "step Pause s = (pause s, [])"
| "step Resume s = (resume s, [])"
| "step (KeyDown key) s = (onKeyDown key s, [])"
| "step (KeyUp key) s = (onKeyUp key s, [])"
| "step (TouchStart ev boundaries) s = (onTouchStart ev boundaries s, [])"
| "step (TouchMove ev boundaries) s = (onTouchMove ev boundaries s, [])"
| "step TouchEnd s = (onTouchEnd s, [])"
| "step Tick s = run s"

fun steps :: "'f loop_op list \<Rightarrow> 'f EventLoop \<Rightarrow> 'f EventLoop \<times> 'f call list list" where
  "steps [] s = (s, [])"
| "steps (op # ops) s =
     (let (s', calls) = step op s; (s'', rest) = steps ops s' in (s'', calls # rest))"

text \<open>For the statements and proofs: an operation other than \<open>pause\<close>, \<open>resume\<close> and a tick;
  a call of a given handler; the ids of the handler list are numbers up to \<open>nextId\<close> and
  pairwise different; an id that was given out and is no longer in the handler list.\<close>

definition quiet :: "'f loop_op \<Rightarrow> bool" where
  "quiet op = (op \<noteq> Pause \<and> op \<noteq> Resume \<and> op \<noteq> Tick)"

definition invoked :: "'f EventHandler \<Rightarrow> 'f call \<Rightarrow> bool" where
  "invoked h c = (case c of HandlerCall h' p \<Rightarrow> h' = h | TickCall f \<Rightarrow> False)"

definition ids_ok :: "'f EventHandler list \<Rightarrow> nat \<Rightarrow> bool" where
  "ids_ok hs n \<longleftrightarrow> (\<forall>h\<in>set hs. \<exists>m. hid h = Some m \<and> m \<le> n) \<and> distinct (map hid hs)"

definition retired :: "nat option \<Rightarrow> 'f EventLoop \<Rightarrow> bool" where
  "retired i s \<longleftrightarrow> ids_ok (handlers s) (nextId s) \<and> (\<exists>m. i = Some m \<and> m \<le> nextId s) \<and>
     i \<notin> hid ` set (handlers s)"

text \<open>Example states: a tick callback and a repeating key handler armed by a key press;
  a non-repeating key handler armed by a key press; a tick callback after two ticks.\<close>

definition example_loop :: "string EventLoop" where
  "example_loop =
     fst (steps [AddTickEvent ''onTick'', AddKeyEvent 38 ''onKeyPress'' True, KeyDown 38] EventLoop)"

definition example_oneshot :: "string EventLoop" where
  "example_oneshot = fst (steps [AddKeyEvent 38 ''onKeyPress'' False, KeyDown 38] EventLoop)"

definition example_oneshot_handler :: "string EventHandler" where
  "example_oneshot_handler =
     \<lparr>hid = Some 1, htype = KEY, hcode = KeyCode 38, hfn = ''onKeyPress'', hrepeat = False\<rparr>"

definition example_ticking :: "string EventLoop" where
  "example_ticking = fst (steps [Tick, Tick] (addTickEvent ''onTick'' EventLoop))"

section \<open>The ship (\<open>Ship\<close>, astronum/captcha.js)\<close>

text \<open>
  What the ship reads from the page is a parameter: the canvas' \<open>offsetWidth\<close>,
  \<open>offsetHeight\<close>, \<open>offsetLeft\<close> and \<open>offsetTop\<close>, the constructor's arguments \<open>x\<close> and \<open>y\<close>
  (\<open>shipX\<close>, \<open>shipY\<close>) and the laid-out size of the ship's element (\<open>el.offsetWidth\<close>,
  \<open>el.offsetHeight\<close>). The state is the four variables the closure mutates. Numbers are
  reals; \<open>NaN\<close> is written out where the source can produce it.
\<close>

record ShipEnv =
  offsetWidth :: real
  offsetHeight :: real
  offsetLeft :: real
  offsetTop :: real
  shipX :: real
  shipY :: real
  elOffsetWidth :: real
  elOffsetHeight :: real

record Ship =
  posX :: real
  posY :: real
  scale :: real
  angle :: real

definition TURN_ANGLE :: real where "TURN_ANGLE = 2.0"

definition THRUST_DISTANCE :: real where "THRUST_DISTANCE = 1.0"

definition width :: "ShipEnv \<Rightarrow> real" where
  "width env = min (offsetWidth env) (offsetHeight env) * 0.10"

definition height :: "ShipEnv \<Rightarrow> real" where
  "height env = min (offsetWidth env) (offsetHeight env) * 0.14"

definition Ship :: "ShipEnv \<Rightarrow> Ship" where
  \<comment> \<open>the initial values of \<open>posX\<close>, \<open>posY\<close>, \<open>scale\<close> and \<open>angle\<close>\<close>
  "Ship env = \<lparr>posX = shipX env - height env / 2, posY = shipY env - width env / 2,
               scale = 1.0, angle = 90.0\<rparr>"

definition js_rem :: "real \<Rightarrow> real \<Rightarrow> real" where
  \<comment> \<open>the \<open>%\<close> operator: the remainder has the sign of the dividend\<close>
  "js_rem a b = a - b * of_int (if a / b < 0 then \<lceil>a / b\<rceil> else \<lfloor>a / b\<rfloor>)"

definition collide :: "ShipEnv \<Rightarrow> real \<Rightarrow> real \<Rightarrow> bool" where
  \<comment> \<open>the flag \<open>collide\<close> for the tentative point \<open>p\<close>\<close>
  "collide env px py =
     (px \<le> 0 \<or> px + height env \<ge> offsetWidth env \<or>
      py \<le> 0 \<or> py + height env \<ge> offsetHeight env)"

definition update :: "ShipEnv \<Rightarrow> real \<Rightarrow> real \<Rightarrow> real \<Rightarrow> Ship \<Rightarrow> Ship" where
  "update env xDelta yDelta degDelta s =
     (if collide env (posX s + xDelta) (posY s + yDelta) then s
      else (let a = angle s + degDelta;
                a' = (if a > 360 then js_rem a 360 else if a < 0 then a + 360 else a)
            in s\<lparr>angle := a', posX := posX s + xDelta, posY := posY s + yDelta\<rparr>))"

definition move :: "ShipEnv \<Rightarrow> real \<Rightarrow> Ship \<Rightarrow> Ship" where
  "move env distance s =
     (let rad = angle s * pi / 180
      in update env (cos rad * distance) (sin rad * distance) 0 s)"

definition reset :: "ShipEnv \<Rightarrow> Ship \<Rightarrow> Ship" where
  "reset env s =
     update env 0 0 0
       (s\<lparr>posX := shipX env - width env / 2, posY := shipY env - height env / 2,
          scale := 1.0, angle := 90.0\<rparr>)"

definition forward :: "ShipEnv \<Rightarrow> Ship \<Rightarrow> Ship" where
  "forward env s = move env (- THRUST_DISTANCE) s"

definition backward :: "ShipEnv \<Rightarrow> Ship \<Rightarrow> Ship" where
  \<comment> \<open>the body is commented out in the source\<close>
  "backward env s = s"

definition rotateLeft :: "ShipEnv \<Rightarrow> Ship \<Rightarrow> Ship" where
  "rotateLeft env s = update env 0 0 (- TURN_ANGLE) s"

definition rotateRight :: "ShipEnv \<Rightarrow> Ship \<Rightarrow> Ship" where
  "rotateRight env s = update env 0 0 TURN_ANGLE s"

definition getOrient :: "Ship \<Rightarrow> real" where
  "getOrient s = angle s"

definition getCenter :: "ShipEnv \<Rightarrow> Ship \<Rightarrow> Point" where
  "getCenter env s =
     \<lparr>ptX = posX s + elOffsetHeight env / 2, ptY = posY s + elOffsetWidth env / 2\<rparr>"

definition getFront :: "ShipEnv \<Rightarrow> Ship \<Rightarrow> Point" where
  "getFront env s =
     (let cx = posX s + elOffsetHeight env / 2;
          cy = posY s + elOffsetWidth env / 2;
          dx = posX s - cx;
          dy = (posY s + elOffsetWidth env / 2) - cy;
          rad = angle s * pi / 180;
          xr = dx * cos rad - dy * sin rad;
          yr = dx * sin rad + dy * cos rad
      in \<lparr>ptX = xr + cx, ptY = yr + cy\<rparr>)"

definition getMinTurnAngle :: real where
  "getMinTurnAngle = TURN_ANGLE"

definition getMinThrustDistance :: real where
  "getMinThrustDistance = THRUST_DISTANCE"

text \<open>The operations the ship exposes, and a run of them from the initial pose.\<close>

datatype ship_op = Reset | Forward | Backward | RotateLeft | RotateRight

fun ship_step :: "ShipEnv \<Rightarrow> ship_op \<Rightarrow> Ship \<Rightarrow> Ship" where
  "ship_step env Reset s = reset env s"
| "ship_step env Forward s = forward env s"
| "ship_step env Backward s = backward env s"
| "ship_step env RotateLeft s = rotateLeft env s"
| "ship_step env RotateRight s = rotateRight env s"

definition ship_run :: "ShipEnv \<Rightarrow> ship_op list \<Rightarrow> Ship" where
  "ship_run env ops = fold (ship_step env) ops (Ship env)"

section \<open>Steering to the pointer (\<open>onDrag\<close>, astronum/captcha.js)\<close>

definition atan2 :: "real \<Rightarrow> real \<Rightarrow> real" where
  \<comment> \<open>\<open>Math.atan2(y, x)\<close> of the standard library: the angle of the point \<open>(x, y)\<close>, in
     \<open>(-\<pi>, \<pi>]\<close>, and 0 at the origin\<close>
  "atan2 y x =
     (if x > 0 then arctan (y / x)
      else if x < 0 \<and> y \<ge> 0 then arctan (y / x) + pi
      else if x < 0 \<and> y < 0 then arctan (y / x) - pi
      else if y > 0 then pi / 2
      else if y < 0 then - pi / 2
      else 0)"

definition js_sqrt :: "real \<Rightarrow> real option" where
  \<comment> \<open>\<open>Math.sqrt\<close>: \<open>NaN\<close> (here \<open>None\<close>) on a negative argument\<close>
  "js_sqrt v = (if v < 0 then None else Some (sqrt v))"

definition js_less :: "real option \<Rightarrow> real \<Rightarrow> bool" where
  \<comment> \<open>\<open><\<close> with a left operand that may be \<open>NaN\<close>: every comparison with \<open>NaN\<close> is false\<close>
  "js_less a b = (case a of None \<Rightarrow> False | Some v \<Rightarrow> v < b)"

definition onDrag :: "ShipEnv \<Rightarrow> Point \<Rightarrow> Ship \<Rightarrow> Ship" where
  "onDrag env curPos' s =
     (let sourcePos = getFront env s;
          targetPos = \<lparr>ptX = ptX curPos' - offsetLeft env, ptY = ptY curPos' - offsetTop env\<rparr>;
          dx = ptX targetPos - ptX sourcePos;
          dy = ptY targetPos - ptY sourcePos;
          targetDeg0 = js_rem (atan2 dy dx * 180 / pi) 360;
          targetDeg = (if targetDeg0 < 0 then targetDeg0 + 360 else targetDeg0);
          shipDeg = getOrient s;
          delta0 = targetDeg - shipDeg;
          delta1 = (if delta0 > 180 then delta0 - 360 else delta0);
          delta = (if delta1 \<le> - 180 then delta1 + 360 else delta1)
      in if \<bar>delta\<bar> < 180 - getMinTurnAngle
         then (if delta < 0 then rotateRight env s else rotateLeft env s)
         else (let distance = js_sqrt (dx + dy)
               in if js_less distance getMinThrustDistance then s else forward env s))"

text \<open>A 400 by 400 canvas at the page origin with the ship built at its centre, as
  \<open>Captcha\<close> builds it; the ship's element is laid out 56 wide and 40 high.\<close>

definition example_env :: ShipEnv where
  "example_env = \<lparr>offsetWidth = 400, offsetHeight = 400, offsetLeft = 0, offsetTop = 0,
     shipX = 200, shipY = 200, elOffsetWidth = 56, elOffsetHeight = 40\<rparr>"

text \<open>A ship half a pixel below the top edge of the canvas.\<close>

definition example_edge :: Ship where
  "example_edge = \<lparr>posX = 172, posY = 1/2, scale = 1, angle = 90\<rparr>"

section \<open>The generator: what the loops compute\<close>

lemma okK_iff:
  "okK arr maxSum i j k \<longleftrightarrow>
     (\<forall>k'. k \<le> k' \<and> k' < length arr \<longrightarrow> arr ! i + arr ! j + arr ! k' < maxSum)"
proof (induction arr maxSum i j k rule: okK.induct)
  case (1 arr maxSum i j k)
  show ?case
  proof (cases "k < length arr")
    case False
    then show ?thesis by (subst okK.simps) simp
  next
    case True
    show ?thesis
    proof (cases "arr ! i + arr ! j + arr ! k \<ge> maxSum")
      case big: True
      with True have "\<not> okK arr maxSum i j k" by (subst okK.simps) simp
      moreover from True big
      have "\<not> (\<forall>k'. k \<le> k' \<and> k' < length arr \<longrightarrow> arr ! i + arr ! j + arr ! k' < maxSum)"
        by (auto intro!: exI[of _ k])
      ultimately show ?thesis by blast
    next
      case small: False
      with True have "okK arr maxSum i j k = okK arr maxSum i j (Suc k)"
        by (subst okK.simps) simp
      also have "\<dots> \<longleftrightarrow> (\<forall>k'. Suc k \<le> k' \<and> k' < length arr \<longrightarrow>
          arr ! i + arr ! j + arr ! k' < maxSum)"
        using "1.IH" True small by simp
      also have "\<dots> \<longleftrightarrow> (\<forall>k'. k \<le> k' \<and> k' < length arr \<longrightarrow>
          arr ! i + arr ! j + arr ! k' < maxSum)"
        using small by (metis le_neq_implies_less not_less_eq_eq not_le Suc_leD)
      finally show ?thesis .
    qed
  qed
qed

lemma okJ_iff:
  "okJ arr maxSum i j ok \<longleftrightarrow>
     ok \<and> (\<forall>j' k'. j \<le> j' \<and> j' < k' \<and> k' < length arr \<longrightarrow>
             arr ! i + arr ! j' + arr ! k' < maxSum)"
proof (induction arr maxSum i j ok rule: okJ.induct)
  case (1 arr maxSum i j ok)
  show ?case
  proof (cases "j < length arr \<and> ok")
    case False
    then show ?thesis by (subst okJ.simps) auto
  next
    case True
    then have "okJ arr maxSum i j ok = okJ arr maxSum i (Suc j) (okK arr maxSum i j (Suc j))"
      by (subst okJ.simps) simp
    also have "\<dots> \<longleftrightarrow> okK arr maxSum i j (Suc j) \<and>
        (\<forall>j' k'. Suc j \<le> j' \<and> j' < k' \<and> k' < length arr \<longrightarrow>
             arr ! i + arr ! j' + arr ! k' < maxSum)"
      using "1.IH" True by simp
    also have "\<dots> \<longleftrightarrow> (\<forall>j' k'. j \<le> j' \<and> j' < k' \<and> k' < length arr \<longrightarrow>
             arr ! i + arr ! j' + arr ! k' < maxSum)"
      unfolding okK_iff
      by (metis le_neq_implies_less not_less_eq_eq Suc_leD le_refl less_eq_Suc_le)
    finally show ?thesis using True by simp
  qed
qed

lemma step_range:
  "(P i \<and> (\<forall>i'. Suc i \<le> i' \<longrightarrow> P i')) \<longleftrightarrow> (\<forall>i'. i \<le> i' \<longrightarrow> P i')"
  by (metis Suc_leI le_neq_implies_less le_refl Suc_leD)

lemma okI_iff:
  "okI arr maxSum i ok \<longleftrightarrow>
     ok \<and> (\<forall>i' j' k'. i \<le> i' \<and> i' < j' \<and> j' < k' \<and> k' < length arr \<longrightarrow>
             arr ! i' + arr ! j' + arr ! k' < maxSum)"
proof (induction arr maxSum i ok rule: okI.induct)
  case (1 arr maxSum i ok)
  let ?P = "\<lambda>i'. \<forall>j' k'. i' < j' \<and> j' < k' \<and> k' < length arr \<longrightarrow>
             arr ! i' + arr ! j' + arr ! k' < maxSum"
  show ?case
  proof (cases "i < length arr \<and> ok")
    case False
    then show ?thesis by (subst okI.simps) auto
  next
    case True
    then have "okI arr maxSum i ok = okI arr maxSum (Suc i) (okJ arr maxSum i (Suc i) ok)"
      by (subst okI.simps) simp
    also have "\<dots> \<longleftrightarrow> okJ arr maxSum i (Suc i) ok \<and> (\<forall>i'. Suc i \<le> i' \<longrightarrow> ?P i')"
    proof -
      have "(\<forall>i' j' k'. Suc i \<le> i' \<and> i' < j' \<and> j' < k' \<and> k' < length arr \<longrightarrow>
             arr ! i' + arr ! j' + arr ! k' < maxSum) \<longleftrightarrow> (\<forall>i'. Suc i \<le> i' \<longrightarrow> ?P i')"
        by blast
      then show ?thesis using "1.IH" True by simp
    qed
    also have "okJ arr maxSum i (Suc i) ok \<longleftrightarrow> ?P i"
      unfolding okJ_iff using True by (simp add: Suc_le_eq)
    also have "(?P i \<and> (\<forall>i'. Suc i \<le> i' \<longrightarrow> ?P i')) \<longleftrightarrow> (\<forall>i'. i \<le> i' \<longrightarrow> ?P i')"
      by (rule step_range)
    also have "(\<forall>i'. i \<le> i' \<longrightarrow> ?P i') \<longleftrightarrow>
        (\<forall>i' j' k'. i \<le> i' \<and> i' < j' \<and> j' < k' \<and> k' < length arr \<longrightarrow>
             arr ! i' + arr ! j' + arr ! k' < maxSum)"
      by blast
    finally show ?thesis using True by blast
  qed
qed

lemma countK_eq: "countK arr i j k count = count + length (solK arr i j k)"
proof (induction arr i j k count rule: countK.induct)
  case (1 arr i j k count)
  show ?case
  proof (cases "k < length arr")
    case False
    then show ?thesis by (subst countK.simps) (simp add: solK_def)
  next
    case True
    then have "solK arr i j k =
        (if sums_to (arr ! i) (arr ! j) (arr ! k) then [(i, j, k)] else []) @ solK arr i j (Suc k)"
      by (simp add: solK_def upt_conv_Cons)
    then show ?thesis using True "1.IH" by (subst countK.simps) simp
  qed
qed

lemma countJ_eq: "countJ arr i j count = count + length (solJ arr i j)"
proof (induction arr i j count rule: countJ.induct)
  case (1 arr i j count)
  show ?case
  proof (cases "j < length arr")
    case False
    then show ?thesis by (subst countJ.simps) (simp add: solJ_def)
  next
    case True
    then have "solJ arr i j = solK arr i j (Suc j) @ solJ arr i (Suc j)"
      by (simp add: solJ_def upt_conv_Cons)
    then show ?thesis using True "1.IH" by (subst countJ.simps) (simp add: countK_eq)
  qed
qed

lemma countI_eq: "countI arr i count = count + length (solI arr i)"
proof (induction arr i count rule: countI.induct)
  case (1 arr i count)
  show ?case
  proof (cases "i < length arr")
    case False
    then show ?thesis by (subst countI.simps) (simp add: solI_def)
  next
    case True
    then have "solI arr i = solJ arr i (Suc i) @ solI arr (Suc i)"
      by (simp add: solI_def upt_conv_Cons)
    then show ?thesis using True "1.IH" by (subst countI.simps) (simp add: countJ_eq)
  qed
qed

lemma in_solK:
  "(a, b, c) \<in> set (solK arr i j k) \<longleftrightarrow>
     a = i \<and> b = j \<and> k \<le> c \<and> c < length arr \<and> sums_to (arr ! i) (arr ! j) (arr ! c)"
  by (auto simp: solK_def)

lemma in_solJ:
  "(a, b, c) \<in> set (solJ arr i j) \<longleftrightarrow>
     a = i \<and> j \<le> b \<and> b < c \<and> c < length arr \<and> sums_to (arr ! i) (arr ! b) (arr ! c)"
  by (auto simp: solJ_def in_solK Suc_le_eq)

lemma in_solI:
  "(a, b, c) \<in> set (solI arr i) \<longleftrightarrow>
     i \<le> a \<and> a < b \<and> b < c \<and> c < length arr \<and> sums_to (arr ! a) (arr ! b) (arr ! c)"
  by (auto simp: solI_def in_solJ Suc_le_eq)

lemma count_one_unique:
  assumes "countI arr 0 0 = 1"
  obtains i j k where "i < j" "j < k" "k < length arr"
    "sums_to (arr ! i) (arr ! j) (arr ! k)"
    "\<And>a b c. a < b \<Longrightarrow> b < c \<Longrightarrow> c < length arr \<Longrightarrow>
       sums_to (arr ! a) (arr ! b) (arr ! c) \<Longrightarrow> a = i \<and> b = j \<and> c = k"
proof -
  from assms have "length (solI arr 0) = 1" by (simp add: countI_eq)
  then obtain t where t: "solI arr 0 = [t]"
    by (cases "solI arr 0") auto
  obtain i j k where ijk: "t = (i, j, k)" by (cases t) auto
  have mem: "\<And>a b c. (a, b, c) \<in> set (solI arr 0) \<longleftrightarrow> (a, b, c) = (i, j, k)"
    unfolding t ijk by simp
  have char: "\<And>a b c. (a < b \<and> b < c \<and> c < length arr \<and> sums_to (arr ! a) (arr ! b) (arr ! c))
      \<longleftrightarrow> (a = i \<and> b = j \<and> c = k)"
    using mem unfolding in_solI by simp
  from char[of i j k] have "i < j" "j < k" "k < length arr" "sums_to (arr ! i) (arr ! j) (arr ! k)"
    by simp_all
  moreover have "a = i \<and> b = j \<and> c = k"
    if "a < b" "b < c" "c < length arr" "sums_to (arr ! a) (arr ! b) (arr ! c)" for a b c
    using char[of a b c] that by simp
  ultimately show thesis by (rule that)
qed

lemma snd_fill: "snd (fill n maxSum rnd) = sdrop n rnd"
  by (induction n arbitrary: rnd) (simp_all add: case_prod_beta)

lemma fst_fill:
  "fst (fill n maxSum rnd) = map (\<lambda>u. getRandomInt u 1 (maxSum - 1)) (stake n rnd)"
  by (induction n arbitrary: rnd) (simp_all add: case_prod_beta)

lemma generate_accepts:
  assumes "generateSpecialArray arrayLength maxSum rnd = Some arr"
  shows "\<exists>n. arr = fst (fill arrayLength maxSum (sdrop n rnd)) \<and>
             okI arr maxSum 0 True \<and> countI arr 0 0 = 1"
proof (rule generateSpecialArray.raw_induct
    [where P = "\<lambda>N M r a. \<exists>n. a = fst (fill N M (sdrop n r)) \<and> okI a M 0 True \<and> countI a 0 0 = 1",
     OF _ assms])
  fix gen :: "nat \<Rightarrow> int \<Rightarrow> real stream \<Rightarrow> int list option"
  fix N M r a
  assume IH: "\<And>N M r a. gen N M r = Some a \<Longrightarrow>
      \<exists>n. a = fst (fill N M (sdrop n r)) \<and> okI a M 0 True \<and> countI a 0 0 = 1"
  assume eq: "(let arr = fst (fill N M r); rnd' = snd (fill N M r) in
      if \<not> okI arr M 0 True then gen N M rnd'
      else if countI arr 0 0 = 1 then Some arr else gen N M rnd') = Some a"
  let ?c = "fst (fill N M r)"
  show "\<exists>n. a = fst (fill N M (sdrop n r)) \<and> okI a M 0 True \<and> countI a 0 0 = 1"
  proof (cases "okI ?c M 0 True \<and> countI ?c 0 0 = 1")
    case True
    with eq have "a = ?c" by (simp add: Let_def)
    with True show ?thesis by (intro exI[of _ 0]) simp
  next
    case False
    with eq have "gen N M (sdrop N r) = Some a"
      by (auto simp: Let_def snd_fill split: if_splits)
    from IH[OF this] obtain n where
      "a = fst (fill N M (sdrop n (sdrop N r))) \<and> okI a M 0 True \<and> countI a 0 0 = 1"
      by blast
    then show ?thesis unfolding sdrop_add by blast
  qed
qed

lemma sset_sdrop_subset: "sset (sdrop n s) \<subseteq> sset s"
proof (induction n arbitrary: s)
  case 0
  show ?case by simp
next
  case (Suc n)
  have "sset (sdrop (Suc n) s) \<subseteq> sset (stl s)" using Suc[of "stl s"] by simp
  also have "\<dots> \<subseteq> sset s" by (auto intro: stl_sset)
  finally show ?case .
qed

lemma getRandomInt_range:
  assumes "0 \<le> u" "u < 1" "mn \<le> mx"
  shows "mn \<le> getRandomInt u mn mx \<and> getRandomInt u mn mx \<le> mx"
proof -
  let ?k = "mx - mn + 1"
  have k: "0 < (of_int ?k :: real)" using assms(3) by simp
  have "0 \<le> u * of_int ?k" using assms(1) k by simp
  then have lo: "0 \<le> \<lfloor>u * of_int ?k\<rfloor>" by simp
  have "u * of_int ?k < of_int ?k" using assms(2) k by simp
  then have "\<lfloor>u * of_int ?k\<rfloor> < ?k" unfolding floor_less_iff .
  with lo show ?thesis by (simp add: getRandomInt_def)
qed

lemma sort3:
  fixes a b c :: nat
  assumes "a \<noteq> b" "a \<noteq> c" "b \<noteq> c"
  obtains i j k where "i < j" "j < k" "{i, j, k} = {a, b, c}"
    "(i, j, k) \<in> {(a, b, c), (a, c, b), (b, a, c), (b, c, a), (c, a, b), (c, b, a)}"
proof -
  consider "a < b \<and> b < c" | "a < c \<and> c < b" | "b < a \<and> a < c"
    | "b < c \<and> c < a" | "c < a \<and> a < b" | "c < b \<and> b < a"
    using assms by linarith
  then show thesis
  proof cases
    case 1 then show ?thesis by (intro that[of a b c]) auto
  next
    case 2 then show ?thesis by (intro that[of a c b]) auto
  next
    case 3 then show ?thesis by (intro that[of b a c]) auto
  next
    case 4 then show ?thesis by (intro that[of b c a]) auto
  next
    case 5 then show ?thesis by (intro that[of c a b]) auto
  next
    case 6 then show ?thesis by (intro that[of c b a]) auto
  qed
qed

lemma sums_to_perm:
  assumes "(i, j, k) \<in> {(a, b, c), (a, c, b), (b, a, c), (b, c, a), (c, a, b), (c, b, a)}"
  shows "sums_to (f i) (f j) (f k) = sums_to (f a) (f b) (f c)"
  using assms by (auto simp: sums_to_def)

lemma example_fill_1:
  "fill 6 100 example_draws =
     ([50, 50, 50, 50, 50, 50], example_draws_rest)"
  by (simp add: example_draws_def eval_nat_numeral getRandomInt_def)

lemma example_fill_2:
  "fill 6 100 example_draws_rest = ([52, 27, 1, 15, 18, 16], sconst 0)"
  by (simp add: example_draws_rest_def eval_nat_numeral getRandomInt_def)

lemma example_rejected: "\<not> okI [50, 50, 50, 50, 50, 50] 100 0 True"
  by (simp add: okI.simps okJ.simps okK.simps)

lemma example_ok: "okI [52, 27, 1, 15, 18, 16] 100 0 True"
  by (simp add: okI.simps okJ.simps okK.simps)

lemma example_count: "countI [52, 27, 1, 15, 18, 16] 0 0 = 1"
  by (simp add: countI.simps countJ.simps countK.simps sums_to_def)

lemma example_generate:
  "generateSpecialArray 6 100 example_draws = Some [52, 27, 1, 15, 18, 16]"
  apply (subst generateSpecialArray.simps)
  apply (simp add: example_fill_1 example_rejected)
  apply (subst generateSpecialArray.simps)
  apply (simp add: example_fill_2 example_ok example_count)
  done

lemma example_draws_unit: "\<forall>u\<in>sset example_draws. 0 \<le> u \<and> u < 1"
  by (simp add: example_draws_def example_draws_rest_def)

lemma set_stake_subset: "set (stake n s) \<subseteq> sset s"
proof (induction n arbitrary: s)
  case 0
  show ?case by simp
next
  case (Suc n)
  have "set (stake n (stl s)) \<subseteq> sset s" using Suc[of "stl s"] by (auto intro: stl_sset)
  then show ?case by (simp add: shd_sset)
qed

text \<open>
  Claim C9. For a count \<open>N \<ge> 3\<close> and a bound \<open>M > 3N\<close>, whenever the generator returns,
  the returned sequence has exactly \<open>N\<close> elements and every element lies in the inclusive
  range \<open>[1, M - 1]\<close>. The random draws are results of \<open>Math.random()\<close>, that is, numbers
  in \<open>[0, 1)\<close>.
\<close>
theorem generateSpecialArray_length_range:
  assumes "3 \<le> N" and "3 * int N < M"
    and "\<forall>u\<in>sset rnd. 0 \<le> u \<and> u < 1"
    and "generateSpecialArray N M rnd = Some arr"
  shows "length arr = N \<and> (\<forall>x\<in>set arr. 1 \<le> x \<and> x \<le> M - 1)"
proof -
  from generate_accepts[OF assms(4)] obtain n where
    arr: "arr = map (\<lambda>u. getRandomInt u 1 (M - 1)) (stake N (sdrop n rnd))"
    unfolding fst_fill by blast
  have M: "1 \<le> M - 1" using assms(1,2) by linarith
  have "1 \<le> x \<and> x \<le> M - 1" if "x \<in> set arr" for x
  proof -
    from that obtain u where u: "u \<in> set (stake N (sdrop n rnd))"
      and x: "x = getRandomInt u 1 (M - 1)"
      unfolding arr by auto
    from u have "u \<in> sset (sdrop n rnd)" by (rule subsetD[OF set_stake_subset])
    then have "u \<in> sset rnd" by (rule subsetD[OF sset_sdrop_subset])
    with assms(3) have "0 \<le> u" "u < 1" by auto
    then show ?thesis unfolding x using M by (rule getRandomInt_range)
  qed
  moreover have "length arr = N" unfolding arr by simp
  ultimately show ?thesis by blast
qed

text \<open>The generator run on draws that first give a rejected candidate and then the
  sequence 52, 27, 1, 15, 18, 16.\<close>
theorem generateSpecialArray_length_range_witness:
  "generateSpecialArray 6 100 example_draws = Some [52, 27, 1, 15, 18, 16] \<and>
   length [52, 27, 1, 15, 18, 16 :: int] = 6 \<and>
   list_all (\<lambda>x. 1 \<le> x \<and> x \<le> 100 - 1) [52, 27, 1, 15, 18, 16 :: int]"
  using generateSpecialArray_length_range
    [of 6 100 example_draws "[52, 27, 1, 15, 18, 16]", OF _ _ example_draws_unit example_generate]
    example_generate
  by (simp add: list_all_iff)

text \<open>
  Claim C2. In every sequence the generator returns, the elements at any three distinct
  positions sum to less than the bound \<open>M\<close>: no 3-element subset has a sum \<open>\<ge> M\<close>.
\<close>
theorem generateSpecialArray_triple_sum_below:
  assumes "generateSpecialArray N M rnd = Some arr"
    and "i < length arr" "j < length arr" "k < length arr"
    and "i \<noteq> j" "i \<noteq> k" "j \<noteq> k"
  shows "arr ! i + arr ! j + arr ! k < M"
proof -
  from generate_accepts[OF assms(1)] have "okI arr M 0 True" by blast
  then have ok: "\<And>a b c. a < b \<Longrightarrow> b < c \<Longrightarrow> c < length arr \<Longrightarrow> arr ! a + arr ! b + arr ! c < M"
    unfolding okI_iff by simp
  from assms(5-7) obtain a b c where abc: "a < b" "b < c" "{a, b, c} = {i, j, k}"
    and perm: "(a, b, c) \<in> {(i, j, k), (i, k, j), (j, i, k), (j, k, i), (k, i, j), (k, j, i)}"
    by (rule sort3)
  have "c \<in> {i, j, k}" using abc(3) by blast
  with assms(2-4) have "c < length arr" by blast
  from ok[OF abc(1,2) this] perm show ?thesis by auto
qed

text \<open>The returned sequence 52, 27, 1, 15, 18, 16 at the positions 0, 1 and 4.\<close>
theorem generateSpecialArray_triple_sum_below_witness:
  "generateSpecialArray 6 100 example_draws = Some [52, 27, 1, 15, 18, 16] \<and>
   [52, 27, 1, 15, 18, 16 :: int] ! 0 + [52, 27, 1, 15, 18, 16] ! 1 + [52, 27, 1, 15, 18, 16] ! 4 < 100"
  using generateSpecialArray_triple_sum_below
    [of 6 100 example_draws "[52, 27, 1, 15, 18, 16]" 0 1 4, OF example_generate]
    example_generate
  by simp

text \<open>
  Claim C1. In every sequence the generator returns there is exactly one 3-element set of
  positions whose elements satisfy \<open>a + b = c\<close> for some assignment of the three roles;
  every other 3-element set of positions satisfies it for no assignment. Subsets are
  subsets of positions: the loops of the source range over index triples, so equal values
  at different positions are different elements.
\<close>
theorem generateSpecialArray_unique_sum_triple:
  assumes "generateSpecialArray N M rnd = Some arr"
  shows "\<exists>!S. is_sum_triple arr S"
proof -
  from generate_accepts[OF assms] have "countI arr 0 0 = 1" by blast
  then obtain i j k where
    ijk: "i < j" "j < k" "k < length arr" "sums_to (arr ! i) (arr ! j) (arr ! k)"
    and uniq: "\<And>a b c. a < b \<Longrightarrow> b < c \<Longrightarrow> c < length arr \<Longrightarrow>
        sums_to (arr ! a) (arr ! b) (arr ! c) \<Longrightarrow> a = i \<and> b = j \<and> c = k"
    by (rule count_one_unique) blast
  have card: "card {i, j, k} = 3" using ijk(1,2) by simp
  have sub: "{i, j, k} \<subseteq> {..<length arr}" using ijk(1-3) by auto
  have "\<exists>a\<in>{i, j, k}. \<exists>b\<in>{i, j, k}. \<exists>c\<in>{i, j, k}.
      a \<noteq> b \<and> a \<noteq> c \<and> b \<noteq> c \<and> arr ! a + arr ! b = arr ! c"
    using ijk(4) unfolding sums_to_def
  proof (elim disjE)
    assume "arr ! i + arr ! j = arr ! k"
    then show ?thesis using ijk(1,2) by (intro bexI[of _ i] bexI[of _ j] bexI[of _ k]) auto
  next
    assume "arr ! i + arr ! k = arr ! j"
    then show ?thesis using ijk(1,2) by (intro bexI[of _ i] bexI[of _ k] bexI[of _ j]) auto
  next
    assume "arr ! j + arr ! k = arr ! i"
    then show ?thesis using ijk(1,2) by (intro bexI[of _ j] bexI[of _ k] bexI[of _ i]) auto
  qed
  with card sub have ex: "is_sum_triple arr {i, j, k}" unfolding is_sum_triple_def by blast
  have "S = {i, j, k}" if S: "is_sum_triple arr S" for S
  proof -
    from S obtain a b c where abc: "a \<in> S" "b \<in> S" "c \<in> S" "a \<noteq> b" "a \<noteq> c" "b \<noteq> c"
      and sum: "arr ! a + arr ! b = arr ! c"
      unfolding is_sum_triple_def by blast
    from S have cS: "card S = 3" and bound: "S \<subseteq> {..<length arr}"
      unfolding is_sum_triple_def by blast+
    have fin: "finite S"
    proof (rule ccontr)
      assume "infinite S"
      then have "card S = 0" by simp
      with cS show False by simp
    qed
    have "{a, b, c} \<subseteq> S" using abc(1-3) by blast
    moreover have "card {a, b, c} = 3" using abc(4-6) by simp
    ultimately have Seq: "{a, b, c} = S" using fin cS by (intro card_subset_eq) auto
    from abc(4-6) obtain x y z where xyz: "x < y" "y < z" "{x, y, z} = {a, b, c}"
      and perm: "(x, y, z) \<in> {(a, b, c), (a, c, b), (b, a, c), (b, c, a), (c, a, b), (c, b, a)}"
      by (rule sort3)
    have "sums_to (arr ! a) (arr ! b) (arr ! c)" using sum by (simp add: sums_to_def)
    then have st: "sums_to (arr ! x) (arr ! y) (arr ! z)"
      using sums_to_perm[OF perm, of "\<lambda>n. arr ! n"] by simp
    have "z \<in> S" using xyz(3) Seq by blast
    then have "z < length arr" using bound by blast
    from uniq[OF xyz(1,2) this st] have "x = i" "y = j" "z = k" by auto
    with xyz(3) Seq show ?thesis by simp
  qed
  with ex show ?thesis by blast
qed

lemma example_sum_triple: "is_sum_triple [52, 27, 1, 15, 18, 16] {2, 3, 5}"
  unfolding is_sum_triple_def
  by (intro conjI bexI[of _ 2] bexI[of _ 3] bexI[of _ 5]) simp_all

text \<open>In 52, 27, 1, 15, 18, 16 the only such set is positions 2, 3, 5: \<open>1 + 15 = 16\<close>.\<close>
theorem generateSpecialArray_unique_sum_triple_witness:
  "generateSpecialArray 6 100 example_draws = Some [52, 27, 1, 15, 18, 16] \<and>
   is_sum_triple [52, 27, 1, 15, 18, 16] {2, 3, 5} \<and>
   (\<exists>!S. is_sum_triple [52, 27, 1, 15, 18, 16] S)"
  using generateSpecialArray_unique_sum_triple[OF example_generate] example_generate
    example_sum_triple
  by blast

section \<open>The event loop: debounce, one-shot handlers, tick callbacks\<close>

subsection \<open>What each operation leaves unchanged\<close>

lemma remove_frame [simp]:
  "tickListeners (remove i s) = tickListeners s"
  "curPos (remove i s) = curPos s"
  "paused (remove i s) = paused s"
  "resumeTimeRemaining (remove i s) = resumeTimeRemaining s"
  "nextId (remove i s) = nextId s"
  "handlers (remove i s) = splice_first i (handlers s)"
  by (simp_all add: remove_def)

lemma add_frame [simp]:
  "tickListeners (snd (add t c f r s)) = tickListeners s"
  "curPos (snd (add t c f r s)) = curPos s"
  "paused (snd (add t c f r s)) = paused s"
  "resumeTimeRemaining (snd (add t c f r s)) = resumeTimeRemaining s"
  "nextId (snd (add t c f r s)) = Suc (nextId s)"
  "fst (add t c f r s) = Suc (nextId s)"
  "handlers (snd (add t c f r s)) =
     handlers s @ [\<lparr>hid = Some (Suc (nextId s)), htype = t, hcode = c, hfn = f, hrepeat = r\<rparr>]"
  by (simp_all add: add_def Let_def)

lemma arm_keys_frame:
  "tickListeners (snd (arm_keys key ls s)) = tickListeners s \<and>
   curPos (snd (arm_keys key ls s)) = curPos s \<and>
   paused (snd (arm_keys key ls s)) = paused s \<and>
   resumeTimeRemaining (snd (arm_keys key ls s)) = resumeTimeRemaining s"
  by (induction ls arbitrary: s) (simp_all add: case_prod_beta Let_def)

lemma arm_mouse_frame:
  "tickListeners (snd (arm_mouse ls s)) = tickListeners s \<and>
   curPos (snd (arm_mouse ls s)) = curPos s \<and>
   paused (snd (arm_mouse ls s)) = paused s \<and>
   resumeTimeRemaining (snd (arm_mouse ls s)) = resumeTimeRemaining s"
  by (induction ls arbitrary: s) (simp_all add: case_prod_beta Let_def)

lemma release_frame:
  "tickListeners (release hs s) = tickListeners s \<and>
   curPos (release hs s) = curPos s \<and>
   paused (release hs s) = paused s \<and>
   resumeTimeRemaining (release hs s) = resumeTimeRemaining s \<and>
   nextId (release hs s) = nextId s"
  by (induction hs arbitrary: s) simp_all

lemma dispatch_frame:
  "tickListeners (fst (dispatch hs s)) = tickListeners s \<and>
   curPos (fst (dispatch hs s)) = curPos s \<and>
   paused (fst (dispatch hs s)) = paused s \<and>
   resumeTimeRemaining (fst (dispatch hs s)) = resumeTimeRemaining s \<and>
   nextId (fst (dispatch hs s)) = nextId s"
  by (induction hs arbitrary: s) (simp_all add: case_prod_beta Let_def)

lemma dispatch_calls: "snd (dispatch hs s) = map (\<lambda>h. HandlerCall h (curPos s)) hs"
  by (induction hs arbitrary: s) (simp_all add: case_prod_beta Let_def)

lemma run_running:
  assumes "\<not> paused s" "\<not> resumeTimeRemaining s > 0"
  shows "snd (run s) =
           map TickCall (tickListeners s) @ map (\<lambda>h. HandlerCall h (curPos s)) (handlers s)"
    and "fst (run s) = fst (dispatch (handlers s) s)"
  using assms by (simp_all add: run_def Let_def case_prod_beta dispatch_calls)

lemma run_suppressed:
  assumes "paused s \<or> resumeTimeRemaining s > 0"
  shows "snd (run s) = []"
    and "tickListeners (fst (run s)) = tickListeners s"
    and "handlers (fst (run s)) = handlers s"
    and "paused (fst (run s)) = paused s"
    and "resumeTimeRemaining (fst (run s)) =
           (if resumeTimeRemaining s > 0 then resumeTimeRemaining s - 5 else resumeTimeRemaining s)"
  using assms by (auto simp: run_def EVENT_INTERVAL_def)

lemma run_tickListeners [simp]: "tickListeners (fst (run s)) = tickListeners s"
  by (simp add: run_def Let_def case_prod_beta dispatch_frame)

lemma step_tickListeners:
  "tickListeners (fst (step op s)) =
     tickListeners s @ (case op of AddTickEvent fn \<Rightarrow> [fn] | _ \<Rightarrow> [])"
  by (cases op)
    (simp_all add: addKeyEvent_def addMouseEvent_def addTouchEvent_def addTickEvent_def
      pause_def resume_def onKeyDown_def onKeyUp_def onTouchStart_def onTouchMove_def
      onTouchEnd_def case_prod_beta Let_def arm_keys_frame arm_mouse_frame release_frame
      split: option.split)

lemma step_quiet:
  assumes "quiet op"
  shows "paused (fst (step op s)) = paused s \<and>
         resumeTimeRemaining (fst (step op s)) = resumeTimeRemaining s \<and>
         snd (step op s) = []"
  using assms unfolding quiet_def
  by (cases op)
    (simp_all add: addKeyEvent_def addMouseEvent_def addTouchEvent_def addTickEvent_def
      onKeyDown_def onKeyUp_def onTouchStart_def onTouchMove_def
      onTouchEnd_def case_prod_beta Let_def arm_keys_frame arm_mouse_frame release_frame
      split: option.split)

lemma debounce_gen:
  assumes "\<forall>op\<in>set ops. op \<noteq> Pause \<and> op \<noteq> Resume"
    and "\<not> paused t"
    and "resumeTimeRemaining t = 5 * real k"
    and "count_list ops Tick \<le> k"
  shows "(\<forall>calls\<in>set (snd (steps ops t)). calls = []) \<and>
         \<not> paused (fst (steps ops t)) \<and>
         resumeTimeRemaining (fst (steps ops t)) = 5 * real (k - count_list ops Tick)"
  using assms
proof (induction ops arbitrary: t k)
  case Nil
  then show ?case by simp
next
  case (Cons op ops)
  let ?t' = "fst (step op t)"
  have rest: "\<forall>op\<in>set ops. op \<noteq> Pause \<and> op \<noteq> Resume" using Cons.prems(1) by simp
  show ?case
  proof (cases "op = Tick")
    case True
    with Cons.prems(4) obtain k' where k: "k = Suc k'" and cnt: "count_list ops Tick \<le> k'"
      by (cases k) auto
    have pos: "resumeTimeRemaining t > 0" using Cons.prems(3) k by simp
    have quietcalls: "snd (step op t) = []" using True pos by (simp add: run_suppressed)
    have p: "\<not> paused ?t'" using True pos Cons.prems(2) by (simp add: run_suppressed)
    have r: "resumeTimeRemaining ?t' = 5 * real k'"
      using True pos Cons.prems(3) k by (simp add: run_suppressed)
    from Cons.IH[OF rest p r cnt] quietcalls True k show ?thesis
      by (simp add: case_prod_beta)
  next
    case False
    with Cons.prems(1) have q: "quiet op" by (simp add: quiet_def)
    have cnt: "count_list ops Tick \<le> k" using False Cons.prems(4) by simp
    have p: "\<not> paused ?t'" using step_quiet[OF q, of t] Cons.prems(2) by simp
    have r: "resumeTimeRemaining ?t' = 5 * real k"
      using step_quiet[OF q, of t] Cons.prems(3) by simp
    from Cons.IH[OF rest p r cnt] step_quiet[OF q, of t] False show ?thesis
      by (simp add: case_prod_beta)
  qed
qed

text \<open>
  Claim C5. From every scheduler state, after \<open>pause()\<close> followed by \<open>resume()\<close>, no
  callback fires on any of the ticks processed during the debounce window: the countdown
  starts at \<open>RESUME_INTERVAL = 100\<close> and every tick takes \<open>EVENT_INTERVAL = 5\<close> off it, so
  the window is 20 ticks. The first tick after these 20 dispatches normally: every tick
  callback, then every registered handler, in registration order. Input events (key, mouse,
  touch, new listeners) may arrive between the ticks; \<open>pause\<close> and \<open>resume\<close> are not
  called again.
\<close>
theorem pause_resume_debounce:
  assumes "Pause \<notin> set ops" and "Resume \<notin> set ops" and "count_list ops Tick \<le> 20"
  shows "(\<forall>calls\<in>set (snd (steps ops (resume (pause s)))). calls = []) \<and>
         (count_list ops Tick = 20 \<longrightarrow>
            (let t = fst (steps ops (resume (pause s))) in
               snd (run t) =
                 map TickCall (tickListeners t) @ map (\<lambda>h. HandlerCall h (curPos t)) (handlers t)))"
proof -
  let ?s1 = "resume (pause s)"
  have ops: "\<forall>op\<in>set ops. op \<noteq> Pause \<and> op \<noteq> Resume" using assms(1,2) by auto
  have p: "\<not> paused ?s1" by (simp add: resume_def pause_def)
  have r: "resumeTimeRemaining ?s1 = 5 * real 20"
    by (simp add: resume_def pause_def RESUME_INTERVAL_def)
  note gen = debounce_gen[OF ops p r assms(3)]
  have "snd (run (fst (steps ops ?s1))) =
      map TickCall (tickListeners (fst (steps ops ?s1))) @
      map (\<lambda>h. HandlerCall h (curPos (fst (steps ops ?s1)))) (handlers (fst (steps ops ?s1)))"
    if "count_list ops Tick = 20"
  proof (rule run_running(1))
    show "\<not> paused (fst (steps ops ?s1))" using gen by blast
    show "\<not> resumeTimeRemaining (fst (steps ops ?s1)) > 0" using gen that by simp
  qed
  with gen show ?thesis by (simp add: Let_def)
qed

lemma count_list_replicate: "count_list (replicate n x) y = (if x = y then n else 0)"
  by (induction n) auto

text \<open>A loop with a tick callback and an armed key handler, paused, resumed and ticked
  20 times: nothing fires; the 21st tick fires both.\<close>
theorem pause_resume_debounce_witness:
  "concat (snd (steps (replicate 20 Tick) (resume (pause example_loop)))) = [] \<and>
   snd (run (fst (steps (replicate 20 Tick) (resume (pause example_loop))))) =
     [TickCall ''onTick'',
      HandlerCall \<lparr>hid = Some 1, htype = KEY, hcode = KeyCode 38, hfn = ''onKeyPress'',
                   hrepeat = True\<rparr> None]"
proof -
  let ?ops = "replicate 20 Tick :: string loop_op list"
  let ?t = "fst (steps ?ops (resume (pause example_loop)))"
  have h: "Pause \<notin> set ?ops" "Resume \<notin> set ?ops" "count_list ?ops Tick \<le> 20"
    by (simp_all add: count_list_replicate)
  have c: "count_list ?ops Tick = 20" by (simp add: count_list_replicate)
  have ex: "example_loop = \<lparr>handlers = [\<lparr>hid = Some 1, htype = KEY, hcode = KeyCode 38,
        hfn = ''onKeyPress'', hrepeat = True\<rparr>],
      keyListeners = [\<lparr>hid = Some 1, htype = KEY, hcode = KeyCode 38,
        hfn = ''onKeyPress'', hrepeat = True\<rparr>],
      mouseListeners = [], tickListeners = [''onTick''], nextId = 1, curPos = None,
      paused = False, resumeTimeRemaining = 0\<rparr>"
    by (simp add: example_loop_def EventLoop_def addTickEvent_def addKeyEvent_def onKeyDown_def
        add_def falsy_def code_is_key_def Let_def)
  have t: "?t = (resume (pause example_loop))\<lparr>resumeTimeRemaining := 0\<rparr>"
    by (simp add: eval_nat_numeral run_def resume_def pause_def RESUME_INTERVAL_def
        EVENT_INTERVAL_def Let_def)
  from pause_resume_debounce[OF h, of example_loop] c
  show ?thesis unfolding t by (simp add: Let_def ex resume_def pause_def)
qed

lemma set_splice_first: "set (splice_first i hs) \<subseteq> set hs"
  by (induction hs) auto

lemma distinct_splice_first:
  "distinct (map hid hs) \<Longrightarrow> distinct (map hid (splice_first i hs))"
proof (induction hs)
  case Nil
  show ?case by simp
next
  case (Cons h hs)
  have "hid h \<notin> hid ` set (splice_first i hs)"
    using Cons.prems set_splice_first[of i hs] by auto
  with Cons show ?case by simp
qed

lemma splice_first_mid:
  "i \<notin> hid ` set A \<Longrightarrow> hid h = i \<Longrightarrow> splice_first i (A @ h # t) = A @ t"
  by (induction A) auto

lemma ids_ok_splice: "ids_ok hs n \<Longrightarrow> ids_ok (splice_first i hs) n"
  unfolding ids_ok_def using set_splice_first[of i hs] distinct_splice_first[of hs i] by blast

lemma ids_ok_append:
  assumes "ids_ok hs n"
  shows "ids_ok (hs @ [\<lparr>hid = Some (Suc n), htype = t, hcode = c, hfn = f, hrepeat = r\<rparr>]) (Suc n)"
proof -
  have "Some (Suc n) \<notin> hid ` set hs" using assms unfolding ids_ok_def by fastforce
  moreover have "\<forall>h\<in>set hs. \<exists>m. hid h = Some m \<and> m \<le> Suc n"
    using assms unfolding ids_ok_def by (meson le_SucI)
  ultimately show ?thesis using assms unfolding ids_ok_def by auto
qed

lemma retired_remove: "retired i s \<Longrightarrow> retired i (remove j s)"
  unfolding retired_def using set_splice_first[of j "handlers s"]
  by (auto simp: ids_ok_splice)

lemma retired_add: "retired i s \<Longrightarrow> retired i (snd (add t c f r s))"
  unfolding retired_def by (auto simp: ids_ok_append)

lemma retired_update [simp]:
  "retired i (s\<lparr>keyListeners := kl\<rparr>) = retired i s"
  "retired i (s\<lparr>mouseListeners := ml\<rparr>) = retired i s"
  "retired i (s\<lparr>tickListeners := tls\<rparr>) = retired i s"
  "retired i (s\<lparr>curPos := cp\<rparr>) = retired i s"
  "retired i (s\<lparr>paused := p\<rparr>) = retired i s"
  "retired i (s\<lparr>resumeTimeRemaining := r\<rparr>) = retired i s"
  by (simp_all add: retired_def)

lemma retired_arm_keys: "retired i s \<Longrightarrow> retired i (snd (arm_keys key ls s))"
  by (induction ls arbitrary: s) (simp_all add: case_prod_beta Let_def retired_add)

lemma retired_arm_mouse: "retired i s \<Longrightarrow> retired i (snd (arm_mouse ls s))"
  by (induction ls arbitrary: s) (simp_all add: case_prod_beta Let_def retired_add)

lemma retired_release: "retired i s \<Longrightarrow> retired i (release hs s)"
  by (induction hs arbitrary: s) (simp_all add: retired_remove)

lemma retired_dispatch: "retired i s \<Longrightarrow> retired i (fst (dispatch hs s))"
  by (induction hs arbitrary: s) (simp_all add: case_prod_beta Let_def retired_remove)

lemma retired_run: "retired i s \<Longrightarrow> retired i (fst (run s))"
  by (simp add: run_def Let_def case_prod_beta retired_dispatch)

lemma retired_step: "retired i s \<Longrightarrow> retired i (fst (step op s))"
  by (cases op)
    (simp_all add: addKeyEvent_def addMouseEvent_def addTouchEvent_def addTickEvent_def
      pause_def resume_def onKeyDown_def onKeyUp_def onTouchStart_def onTouchMove_def
      onTouchEnd_def case_prod_beta Let_def retired_arm_keys retired_arm_mouse retired_release
      retired_remove retired_run split: option.split)

lemma retired_steps: "retired i s \<Longrightarrow> retired i (fst (steps ops s))"
  by (induction ops arbitrary: s) (simp_all add: case_prod_beta retired_step)

lemma reachable_ids_ok: "ids_ok (handlers (fst (steps ops EventLoop))) (nextId (fst (steps ops EventLoop)))"
proof -
  have "retired (Some 0) (EventLoop :: 'a EventLoop)"
    by (simp add: retired_def ids_ok_def EventLoop_def)
  then have "retired (Some 0) (fst (steps ops (EventLoop :: 'a EventLoop)))"
    by (rule retired_steps)
  then show ?thesis by (simp add: retired_def)
qed

lemma dispatch_handlers:
  assumes "handlers s = A @ xs" and "distinct (map hid (A @ xs))"
  shows "handlers (fst (dispatch xs s)) = A @ filter hrepeat xs"
  using assms
proof (induction xs arbitrary: s A)
  case Nil
  then show ?case by simp
next
  case (Cons h t)
  show ?case
  proof (cases "hrepeat h")
    case True
    have "handlers (fst (dispatch t s)) = (A @ [h]) @ filter hrepeat t"
      by (rule Cons.IH) (use Cons.prems in simp_all)
    with True show ?thesis by (simp add: case_prod_beta Let_def)
  next
    case False
    have notin: "hid h \<notin> hid ` set A" using Cons.prems(2) by auto
    have "handlers (remove (hid h) s) = A @ t"
      using Cons.prems(1) splice_first_mid[OF notin refl] by simp
    moreover have "distinct (map hid (A @ t))" using Cons.prems(2) by simp
    ultimately have "handlers (fst (dispatch t (remove (hid h) s))) = A @ filter hrepeat t"
      by (rule Cons.IH)
    with False show ?thesis by (simp add: case_prod_beta Let_def)
  qed
qed

lemma invoked_simps [simp]:
  "invoked h (HandlerCall h' p) = (h' = h)"
  "invoked h (TickCall f) = False"
  by (simp_all add: invoked_def)

lemma count_invoked:
  assumes "distinct hs" and "h \<in> set hs"
  shows "length (filter (invoked h) (map (\<lambda>h. HandlerCall h p) hs)) = 1"
proof -
  have "filter (invoked h) (map (\<lambda>h. HandlerCall h p) hs) =
      map (\<lambda>h. HandlerCall h p) (filter (\<lambda>x. x = h) hs)"
    by (induction hs) simp_all
  moreover have "length (filter (\<lambda>x. x = h) hs) = card ({x. x = h} \<inter> set hs)"
    using assms(1) by (rule distinct_length_filter)
  moreover have "{x. x = h} \<inter> set hs = {h}" using assms(2) by auto
  ultimately show ?thesis by simp
qed

lemma ticks_not_invoked: "filter (invoked h) (map TickCall fs) = []"
  by (induction fs) simp_all

text \<open>
  Claim C6, as amended. In every reachable scheduler state that is RUNNING, a registration
  in the handler list (an armed key, mouse or touch handler) that is marked non-repeating
  is invoked exactly once by a dispatch pass and removed by it, and its id is absent from
  the handler list after every later sequence of operations. Tick callbacks are not
  registrations of this kind: \<open>addTickEvent\<close> takes no repeat flag, and a tick callback stays
  registered and fires on every dispatch.
\<close>
theorem nonrepeating_handler_fires_once:
  assumes "s = fst (steps ops0 EventLoop)"
    and "\<not> paused s" and "\<not> resumeTimeRemaining s > 0"
    and "h \<in> set (handlers s)" and "\<not> hrepeat h"
  shows "length (filter (invoked h) (snd (run s))) = 1 \<and>
         (\<forall>ops. hid h \<notin> hid ` set (handlers (fst (steps ops (fst (run s))))))"
proof -
  have ok: "ids_ok (handlers s) (nextId s)" unfolding assms(1) by (rule reachable_ids_ok)
  then have dist: "distinct (map hid (handlers s))" by (simp add: ids_ok_def)
  then have dist': "distinct (handlers s)" by (simp add: distinct_map)
  have calls: "snd (run s) =
      map TickCall (tickListeners s) @ map (\<lambda>h. HandlerCall h (curPos s)) (handlers s)"
    using assms(2,3) by (rule run_running(1))
  have once: "length (filter (invoked h) (snd (run s))) = 1"
    unfolding calls filter_append length_append ticks_not_invoked
      count_invoked[OF dist' assms(4)] by simp
  let ?s' = "fst (run s)"
  have s': "?s' = fst (dispatch (handlers s) s)" using assms(2,3) by (rule run_running(2))
  have hs': "handlers ?s' = filter hrepeat (handlers s)"
    unfolding s' using dispatch_handlers[of s "[]" "handlers s"] dist by simp
  have gone: "hid h \<notin> hid ` set (handlers ?s')"
  proof
    assume "hid h \<in> hid ` set (handlers ?s')"
    then obtain h' where h': "h' \<in> set (handlers s)" "hrepeat h'" "hid h' = hid h"
      unfolding hs' by auto
    from dist have "inj_on hid (set (handlers s))" by (simp add: distinct_map)
    with h'(1,3) assms(4) have "h' = h" by (auto dest: inj_onD)
    with h'(2) assms(5) show False by simp
  qed
  have nid: "nextId ?s' = nextId s" unfolding s' by (simp add: dispatch_frame)
  have "ids_ok (filter hrepeat (handlers s)) (nextId s)"
    using ok by (auto simp: ids_ok_def distinct_map_filter)
  then have "ids_ok (handlers ?s') (nextId ?s')" unfolding hs' nid .
  moreover from ok assms(4) obtain m where "hid h = Some m" "m \<le> nextId s"
    unfolding ids_ok_def by blast
  then have "\<exists>m. hid h = Some m \<and> m \<le> nextId ?s'" unfolding nid by simp
  ultimately have "retired (hid h) ?s'" using gone by (simp add: retired_def)
  then have "\<And>ops. retired (hid h) (fst (steps ops ?s'))" by (rule retired_steps)
  then have "\<forall>ops. hid h \<notin> hid ` set (handlers (fst (steps ops ?s')))"
    by (simp add: retired_def)
  with once show ?thesis by blast
qed

lemma example_oneshot_eq:
  "example_oneshot = \<lparr>handlers = [example_oneshot_handler],
      keyListeners = [example_oneshot_handler],
      mouseListeners = [], tickListeners = [], nextId = 1, curPos = None,
      paused = False, resumeTimeRemaining = 0\<rparr>"
  by (simp add: example_oneshot_def example_oneshot_handler_def EventLoop_def addKeyEvent_def
      onKeyDown_def add_def falsy_def code_is_key_def Let_def)

text \<open>A non-repeating key handler, armed by a key press.\<close>
theorem nonrepeating_handler_fires_once_witness:
  "\<not> paused example_oneshot \<and> \<not> resumeTimeRemaining example_oneshot > 0 \<and>
   example_oneshot_handler \<in> set (handlers example_oneshot) \<and>
   \<not> hrepeat example_oneshot_handler \<and>
   length (filter (invoked example_oneshot_handler) (snd (run example_oneshot))) = 1 \<and>
   (\<forall>ops. hid example_oneshot_handler \<notin>
      hid ` set (handlers (fst (steps ops (fst (run example_oneshot))))))"
proof -
  have h: "\<not> paused example_oneshot" "\<not> resumeTimeRemaining example_oneshot > 0"
    "example_oneshot_handler \<in> set (handlers example_oneshot)"
    "\<not> hrepeat example_oneshot_handler"
    by (simp_all add: example_oneshot_eq) (simp add: example_oneshot_handler_def)
  from nonrepeating_handler_fires_once[OF example_oneshot_def h] h show ?thesis by blast
qed

text \<open>
  Claim C6 as stated fails for tick handlers: a tick callback registered with
  \<open>addTickEvent\<close> fires on the first dispatch, is still registered afterwards, and fires
  again on the second dispatch.
\<close>
theorem tick_handler_not_removed_counterexample:
  "snd (run (addTickEvent ''onTick'' EventLoop)) = [TickCall ''onTick''] \<and>
   tickListeners (fst (run (addTickEvent ''onTick'' EventLoop))) = [''onTick''] \<and>
   snd (run (fst (run (addTickEvent ''onTick'' EventLoop)))) = [TickCall ''onTick'']"
  by (simp add: run_def addTickEvent_def EventLoop_def)

lemma steps_tickListeners:
  "\<exists>more. tickListeners (fst (steps ops s)) = tickListeners s @ more"
proof (induction ops arbitrary: s)
  case Nil
  show ?case by simp
next
  case (Cons op ops)
  from Cons[of "fst (step op s)"] obtain more where
    "tickListeners (fst (steps ops (fst (step op s)))) = tickListeners (fst (step op s)) @ more"
    by blast
  then show ?case by (simp add: case_prod_beta step_tickListeners)
qed

text \<open>
  Claim C10. Tick callbacks are never removable. \<open>addTickEvent\<close> appends the bare function
  to the tick-listener list (an entry has no id and no repeat flag); \<open>remove\<close> leaves the
  list unchanged for every id; every operation of the loop keeps the list as a prefix of
  the new list; and on every tick processed while RUNNING every tick callback is invoked.
  So a callback added with \<open>addTickEvent\<close> fires on every later tick processed while
  RUNNING, never only once.
\<close>
theorem tick_callbacks_permanent:
  "tickListeners (addTickEvent fn s) = tickListeners s @ [fn] \<and>
   (\<forall>i. tickListeners (remove i s) = tickListeners s) \<and>
   (\<forall>ops. \<exists>more. tickListeners (fst (steps ops s)) = tickListeners s @ more) \<and>
   (\<not> paused s \<and> \<not> resumeTimeRemaining s > 0 \<longrightarrow>
      (\<forall>f\<in>set (tickListeners s). TickCall f \<in> set (snd (run s)))) \<and>
   (\<forall>ops. let t = fst (steps ops (addTickEvent fn s)) in
      \<not> paused t \<and> \<not> resumeTimeRemaining t > 0 \<longrightarrow> TickCall fn \<in> set (snd (run t)))"
proof -
  have fires: "\<forall>f\<in>set (tickListeners t). TickCall f \<in> set (snd (run t))"
    if "\<not> paused t" "\<not> resumeTimeRemaining t > 0" for t :: "'a EventLoop"
    unfolding run_running(1)[OF that] by simp
  have later: "TickCall fn \<in> set (snd (run (fst (steps ops (addTickEvent fn s)))))"
    if "\<not> paused (fst (steps ops (addTickEvent fn s)))"
      "\<not> resumeTimeRemaining (fst (steps ops (addTickEvent fn s))) > 0" for ops
  proof -
    obtain more where "tickListeners (fst (steps ops (addTickEvent fn s))) =
        tickListeners (addTickEvent fn s) @ more"
      using steps_tickListeners by blast
    then have "fn \<in> set (tickListeners (fst (steps ops (addTickEvent fn s))))"
      by (simp add: addTickEvent_def)
    with fires[OF that] show ?thesis by blast
  qed
  show ?thesis
    using fires[of s] later steps_tickListeners[of _ s]
    by (simp add: addTickEvent_def Let_def)
qed

text \<open>After two ticks the callback is still invoked by the third.\<close>
theorem tick_callbacks_permanent_witness:
  "\<not> paused example_ticking \<and> \<not> resumeTimeRemaining example_ticking > 0 \<and>
   TickCall ''onTick'' \<in> set (snd (run example_ticking))"
proof -
  have h: "\<not> paused example_ticking \<and> \<not> resumeTimeRemaining example_ticking > 0"
    by (simp add: example_ticking_def run_def addTickEvent_def EventLoop_def)
  from tick_callbacks_permanent[of "''onTick''" EventLoop] h show ?thesis
    unfolding example_ticking_def Let_def by blast
qed

section \<open>The ship: heading, boundary check, reset, steering\<close>

lemma example_env_simps [simp]:
  "offsetWidth example_env = 400" "offsetHeight example_env = 400"
  "offsetLeft example_env = 0" "offsetTop example_env = 0"
  "shipX example_env = 200" "shipY example_env = 200"
  "elOffsetWidth example_env = 56" "elOffsetHeight example_env = 40"
  "width example_env = 40" "height example_env = 56"
  by (simp_all add: example_env_def width_def height_def)

lemma example_Ship: "Ship example_env = \<lparr>posX = 172, posY = 180, scale = 1, angle = 90\<rparr>"
  by (simp add: Ship_def)

lemma js_rem_pos:
  assumes "0 < a" "0 < b"
  shows "0 \<le> js_rem a b \<and> js_rem a b < b"
proof -
  have q: "\<not> a / b < 0" using assms by (simp add: not_less)
  have ab: "b * (a / b) = a" using assms(2) by simp
  have "b * of_int \<lfloor>a / b\<rfloor> \<le> b * (a / b)"
    using assms(2) by (intro mult_left_mono) simp_all
  then have lo: "b * of_int \<lfloor>a / b\<rfloor> \<le> a" unfolding ab .
  have "a / b < of_int \<lfloor>a / b\<rfloor> + 1" by linarith
  then have "b * (a / b) < b * (of_int \<lfloor>a / b\<rfloor> + 1)"
    using assms(2) by (intro mult_strict_left_mono) simp_all
  then have hi: "a < b * (of_int \<lfloor>a / b\<rfloor> + 1)" unfolding ab .
  from lo hi q show ?thesis by (simp add: js_rem_def algebra_simps)
qed

lemma update_heading:
  assumes "0 \<le> angle s" "angle s \<le> 360" "- 360 \<le> degDelta"
  shows "0 \<le> angle (update env xDelta yDelta degDelta s) \<and>
         angle (update env xDelta yDelta degDelta s) \<le> 360"
proof (cases "collide env (posX s + xDelta) (posY s + yDelta)")
  case True
  with assms show ?thesis by (simp add: update_def)
next
  case False
  let ?a = "angle s + degDelta"
  consider "?a > 360" | "?a < 0" | "0 \<le> ?a \<and> ?a \<le> 360" by linarith
  then show ?thesis
  proof cases
    case 1
    then have "0 \<le> js_rem ?a 360 \<and> js_rem ?a 360 < 360" by (intro js_rem_pos) simp_all
    with 1 False show ?thesis by (simp add: update_def Let_def)
  next
    case 2
    with False assms show ?thesis by (simp add: update_def Let_def)
  next
    case 3
    with False show ?thesis by (simp add: update_def Let_def)
  qed
qed

lemma ship_step_heading:
  assumes "0 \<le> angle s \<and> angle s \<le> 360"
  shows "0 \<le> angle (ship_step env op s) \<and> angle (ship_step env op s) \<le> 360"
proof (cases op)
  case Reset
  show ?thesis unfolding Reset ship_step.simps reset_def
    by (rule update_heading) simp_all
next
  case Forward
  show ?thesis unfolding Forward ship_step.simps forward_def move_def Let_def
    by (rule update_heading) (use assms in simp_all)
next
  case Backward
  then show ?thesis using assms by (simp add: backward_def)
next
  case RotateLeft
  show ?thesis unfolding RotateLeft ship_step.simps rotateLeft_def
    by (rule update_heading) (use assms in \<open>simp_all add: TURN_ANGLE_def\<close>)
next
  case RotateRight
  show ?thesis unfolding RotateRight ship_step.simps rotateRight_def
    by (rule update_heading) (use assms in \<open>simp_all add: TURN_ANGLE_def\<close>)
qed

lemma fold_ship_heading:
  assumes "0 \<le> angle s \<and> angle s \<le> 360"
  shows "0 \<le> angle (fold (ship_step env) ops s) \<and> angle (fold (ship_step env) ops s) \<le> 360"
  using assms
proof (induction ops arbitrary: s)
  case Nil
  then show ?case by simp
next
  case (Cons op ops)
  from Cons.prems have "0 \<le> angle (ship_step env op s) \<and> angle (ship_step env op s) \<le> 360"
    by (rule ship_step_heading)
  then show ?case using Cons.IH by simp
qed

lemma rotate_step:
  assumes "\<not> collide env (posX s) (posY s)" "0 \<le> angle s" "angle s \<le> 360"
  shows "angle (rotateRight env s) =
           (if angle s + 2 > 360 then angle s + 2 - 360 else angle s + 2)"
    and "angle (rotateLeft env s) =
           (if angle s - 2 < 0 then angle s - 2 + 360 else angle s - 2)"
proof -
  have "js_rem (angle s + 2) 360 = angle s + 2 - 360" if "angle s + 2 > 360"
  proof -
    have "1 \<le> (angle s + 2) / 360" "(angle s + 2) / 360 < 2" using that assms(3) by simp_all
    then have "\<lfloor>(angle s + 2) / 360\<rfloor> = 1" by linarith
    moreover have "\<not> (angle s + 2) / 360 < 0" using assms(2) by simp
    ultimately show ?thesis by (simp add: js_rem_def)
  qed
  then show "angle (rotateRight env s) =
           (if angle s + 2 > 360 then angle s + 2 - 360 else angle s + 2)"
    using assms by (simp add: rotateRight_def update_def TURN_ANGLE_def Let_def)
  show "angle (rotateLeft env s) =
           (if angle s - 2 < 0 then angle s - 2 + 360 else angle s - 2)"
    using assms by (simp add: rotateLeft_def update_def TURN_ANGLE_def Let_def)
qed

text \<open>
  Claim C3, as amended. For every sequence of the operations the ship exposes (reset,
  forward, backward, rotateLeft, rotateRight), starting from the initial pose, the heading
  stays in the closed interval \<open>[0, 360]\<close>, and a combined update with a rotation delta of
  at least \<open>-360\<close> keeps it there. A rotation by the turn angle that is not rejected by the
  boundary check sets the heading to heading plus or minus \<open>TURN_ANGLE\<close>, taken down by 360
  only when it exceeds 360 and up by 360 when it is negative; the value 360 itself is
  kept.
\<close>
theorem heading_in_closed_range:
  "0 \<le> angle (ship_run env ops) \<and> angle (ship_run env ops) \<le> 360 \<and>
   (0 \<le> angle s \<and> angle s \<le> 360 \<and> - 360 \<le> degDelta \<longrightarrow>
      0 \<le> angle (update env xDelta yDelta degDelta s) \<and>
      angle (update env xDelta yDelta degDelta s) \<le> 360) \<and>
   (\<not> collide env (posX s) (posY s) \<and> 0 \<le> angle s \<and> angle s \<le> 360 \<longrightarrow>
      angle (rotateRight env s) =
        (if angle s + TURN_ANGLE > 360 then angle s + TURN_ANGLE - 360 else angle s + TURN_ANGLE) \<and>
      angle (rotateLeft env s) =
        (if angle s - TURN_ANGLE < 0 then angle s - TURN_ANGLE + 360 else angle s - TURN_ANGLE))"
proof -
  have "0 \<le> angle (Ship env) \<and> angle (Ship env) \<le> 360" by (simp add: Ship_def)
  then have "0 \<le> angle (ship_run env ops) \<and> angle (ship_run env ops) \<le> 360"
    unfolding ship_run_def by (rule fold_ship_heading)
  then show ?thesis
    using rotate_step[of env s] update_heading[of s degDelta env xDelta yDelta]
    by (simp add: TURN_ANGLE_def)
qed

lemma example_rotations:
  "n \<le> 135 \<Longrightarrow>
   (rotateRight example_env ^^ n) (Ship example_env) =
     (Ship example_env)\<lparr>angle := 90 + 2 * real n\<rparr>"
proof (induction n)
  case 0
  show ?case by (simp add: example_Ship)
next
  case (Suc n)
  then have IH: "(rotateRight example_env ^^ n) (Ship example_env) =
     (Ship example_env)\<lparr>angle := 90 + 2 * real n\<rparr>" by simp
  have small: "\<not> 90 + 2 * real n + 2 > 360" using Suc.prems by simp
  have "(rotateRight example_env ^^ Suc n) (Ship example_env) =
      rotateRight example_env ((rotateRight example_env ^^ n) (Ship example_env))"
    by simp
  also have "\<dots> = rotateRight example_env ((Ship example_env)\<lparr>angle := 90 + 2 * real n\<rparr>)"
    by (simp only: IH)
  also have "\<dots> = (Ship example_env)\<lparr>angle := 90 + 2 * real (Suc n)\<rparr>"
    using small
    by (simp add: example_Ship rotateRight_def update_def collide_def TURN_ANGLE_def Let_def)
  finally show ?case .
qed

lemma example_turned:
  "ship_run example_env (replicate 135 RotateRight) =
     \<lparr>posX = 172, posY = 180, scale = 1, angle = 360\<rparr>"
proof -
  have "ship_step example_env RotateRight = rotateRight example_env" by (rule ext) simp
  then show ?thesis using example_rotations[of 135] by (simp add: ship_run_def example_Ship)
qed

text \<open>
  Claim C3 as stated fails: 135 right turns from the initial pose (heading 90, two degrees
  each) leave the heading at 360, outside \<open>[0, 360)\<close>. The test of the source is
  \<open>angle > 360\<close>, and its comment reads "Clamp angle to [0, 360]".
\<close>
theorem heading_reaches_360_counterexample:
  "angle (ship_run example_env (replicate 135 RotateRight)) = 360"
  by (simp add: example_turned)

text \<open>At heading 360 a right turn gives 2 and a left turn 358.\<close>
theorem heading_in_closed_range_witness:
  "\<not> collide example_env (posX (ship_run example_env (replicate 135 RotateRight)))
       (posY (ship_run example_env (replicate 135 RotateRight))) \<and>
   angle (ship_run example_env (replicate 135 RotateRight)) = 360 \<and>
   angle (rotateRight example_env (ship_run example_env (replicate 135 RotateRight))) = 2 \<and>
   angle (rotateLeft example_env (ship_run example_env (replicate 135 RotateRight))) = 358 \<and>
   0 \<le> angle (update example_env 1 1 (- 360) (ship_run example_env (replicate 135 RotateRight))) \<and>
   angle (update example_env 1 1 (- 360) (ship_run example_env (replicate 135 RotateRight))) \<le> 360"
proof -
  let ?s = "ship_run example_env (replicate 135 RotateRight)"
  have s: "?s = \<lparr>posX = 172, posY = 180, scale = 1, angle = 360\<rparr>"
    by (rule example_turned)
  have h: "\<not> collide example_env (posX ?s) (posY ?s)" "angle ?s = 360"
    unfolding s by (simp_all add: collide_def)
  from heading_in_closed_range[of example_env "replicate 135 RotateRight" ?s "- 360" 1 1] h
  show ?thesis by (simp add: TURN_ANGLE_def)
qed

text \<open>
  Claim C4. For every ship state and every requested update: if the tentative position
  crosses an arena boundary (a coordinate \<open>\<le> 0\<close>, or a coordinate plus the ship's extent
  \<open>height\<close> \<open>\<ge>\<close> the arena's dimension, on either axis), the update is discarded and the
  state (position, heading, scale) is returned unchanged; otherwise the update is
  committed: the position is the tentative position, the heading is the heading plus the
  rotation delta after the wrap of the source, the scale is unchanged. The same holds for
  \<open>move\<close>, whose position delta is \<open>distance \<cdot> (cos, sin)\<close> of the heading and whose rotation
  delta is 0.
\<close>
theorem update_atomic:
  "(posX s + xDelta \<le> 0 \<or> posX s + xDelta + height env \<ge> offsetWidth env \<or>
    posY s + yDelta \<le> 0 \<or> posY s + yDelta + height env \<ge> offsetHeight env \<longrightarrow>
      update env xDelta yDelta degDelta s = s) \<and>
   (\<not> (posX s + xDelta \<le> 0 \<or> posX s + xDelta + height env \<ge> offsetWidth env \<or>
       posY s + yDelta \<le> 0 \<or> posY s + yDelta + height env \<ge> offsetHeight env) \<longrightarrow>
      posX (update env xDelta yDelta degDelta s) = posX s + xDelta \<and>
      posY (update env xDelta yDelta degDelta s) = posY s + yDelta \<and>
      scale (update env xDelta yDelta degDelta s) = scale s \<and>
      angle (update env xDelta yDelta degDelta s) =
        (if angle s + degDelta > 360 then js_rem (angle s + degDelta) 360
         else if angle s + degDelta < 0 then angle s + degDelta + 360
         else angle s + degDelta)) \<and>
   (posX s + cos (angle s * pi / 180) * distance \<le> 0 \<or>
    posX s + cos (angle s * pi / 180) * distance + height env \<ge> offsetWidth env \<or>
    posY s + sin (angle s * pi / 180) * distance \<le> 0 \<or>
    posY s + sin (angle s * pi / 180) * distance + height env \<ge> offsetHeight env \<longrightarrow>
      move env distance s = s) \<and>
   (\<not> (posX s + cos (angle s * pi / 180) * distance \<le> 0 \<or>
       posX s + cos (angle s * pi / 180) * distance + height env \<ge> offsetWidth env \<or>
       posY s + sin (angle s * pi / 180) * distance \<le> 0 \<or>
       posY s + sin (angle s * pi / 180) * distance + height env \<ge> offsetHeight env) \<and>
    0 \<le> angle s \<and> angle s \<le> 360 \<longrightarrow>
      move env distance s =
        s\<lparr>posX := posX s + cos (angle s * pi / 180) * distance,
          posY := posY s + sin (angle s * pi / 180) * distance\<rparr>)"
  by (simp add: update_def move_def collide_def Let_def)

text \<open>A ship half a pixel below the top edge: moving up by one is rejected, also together
  with a rotation; moving down by one with a rotation of two degrees is committed.\<close>
theorem update_atomic_witness:
  "posY example_edge + sin (angle example_edge * pi / 180) * (- 1) \<le> 0 \<and>
   move example_env (- 1) example_edge = example_edge \<and>
   update example_env 0 (- 1) 2 example_edge = example_edge \<and>
   \<not> (posX example_edge + 0 \<le> 0 \<or> posX example_edge + 0 + height example_env \<ge> offsetWidth example_env \<or>
      posY example_edge + 1 \<le> 0 \<or> posY example_edge + 1 + height example_env \<ge> offsetHeight example_env) \<and>
   posX (update example_env 0 1 2 example_edge) = 172 \<and>
   posY (update example_env 0 1 2 example_edge) = 3/2 \<and>
   scale (update example_env 0 1 2 example_edge) = 1 \<and>
   angle (update example_env 0 1 2 example_edge) = 92"
proof -
  have sin90: "sin (angle example_edge * pi / 180) = 1" by (simp add: example_edge_def)
  have h1: "posY example_edge + sin (angle example_edge * pi / 180) * (- 1) \<le> 0"
    unfolding sin90 by (simp add: example_edge_def)
  have h2: "posY example_edge + (- 1) \<le> 0" by (simp add: example_edge_def)
  have h3: "\<not> (posX example_edge + 0 \<le> 0 \<or>
      posX example_edge + 0 + height example_env \<ge> offsetWidth example_env \<or>
      posY example_edge + 1 \<le> 0 \<or>
      posY example_edge + 1 + height example_env \<ge> offsetHeight example_env)"
    by (simp add: example_edge_def)
  have vals: "posX example_edge = 172" "posY example_edge = 1/2" "scale example_edge = 1"
    "angle example_edge = 90"
    by (simp_all add: example_edge_def)
  from update_atomic[of example_edge 0 example_env "- 1" 2 "- 1"] h1 h2
  have a: "move example_env (- 1) example_edge = example_edge"
    and b: "update example_env 0 (- 1) 2 example_edge = example_edge"
    by blast+
  from update_atomic[of example_edge 0 example_env 1 2 0] h3
  have c: "posX (update example_env 0 1 2 example_edge) = posX example_edge + 0"
    "posY (update example_env 0 1 2 example_edge) = posY example_edge + 1"
    "scale (update example_env 0 1 2 example_edge) = scale example_edge"
    "angle (update example_env 0 1 2 example_edge) =
        (if angle example_edge + 2 > 360 then js_rem (angle example_edge + 2) 360
         else if angle example_edge + 2 < 0 then angle example_edge + 2 + 360
         else angle example_edge + 2)"
    by blast+
  from h1 a b h3 c show ?thesis unfolding vals by simp
qed

text \<open>
  Claim C8 fails on the code. The constructor centres the ship with
  \<open>posX = x - height / 2\<close>, \<open>posY = y - width / 2\<close>; \<open>reset\<close> assigns
  \<open>posX = x - width / 2\<close>, \<open>posY = y - height / 2\<close>. On a 400 by 400 canvas the initial
  position is (172, 180) and the position after \<open>reset\<close> is (180, 172). Heading and scale
  are restored.
\<close>
theorem reset_differs_from_initial_pose:
  "Ship example_env = \<lparr>posX = 172, posY = 180, scale = 1, angle = 90\<rparr> \<and>
   reset example_env (Ship example_env) = \<lparr>posX = 180, posY = 172, scale = 1, angle = 90\<rparr>"
  by (simp add: Ship_def reset_def update_def collide_def Let_def)

lemma example_front: "getFront example_env (Ship example_env) = \<lparr>ptX = 192, ptY = 188\<rparr>"
  by (simp add: getFront_def example_Ship Let_def)

lemma example_forward:
  "forward example_env (Ship example_env) = \<lparr>posX = 172, posY = 179, scale = 1, angle = 90\<rparr>"
  by (simp add: forward_def move_def update_def collide_def example_Ship THRUST_DISTANCE_def Let_def)

lemma example_target_deg: "js_rem (atan2 (- (1 / 2)) 0 * 180 / pi) 360 = - 90"
proof -
  have "\<lceil>- (1 / 4) :: real\<rceil> = 0" by (rule ceiling_unique) simp_all
  then show ?thesis by (simp add: atan2_def js_rem_def)
qed

text \<open>
  Claim C7 fails on the code. The ship is in its initial pose, so its front point is
  (192, 188) and it faces up; the pointer is at (192, 187.5), directly ahead, at Euclidean
  distance one half, below the minimum thrust distance 1. The heading is judged close
  enough (the folded delta is 180), but the source computes \<open>Math.sqrt(dx + dy)\<close> with
  \<open>dx + dy = -0.5\<close>, which is \<open>NaN\<close>; the comparison \<open>distance < 1\<close> is false and
  \<open>forward\<close> moves the ship by one pixel.
\<close>
theorem steering_moves_within_thrust_distance:
  "getFront example_env (Ship example_env) = \<lparr>ptX = 192, ptY = 188\<rparr> \<and>
   sqrt ((192 - 192)\<^sup>2 + (375 / 2 - 188)\<^sup>2) < getMinThrustDistance \<and>
   onDrag example_env \<lparr>ptX = 192, ptY = 375 / 2\<rparr> (Ship example_env) =
     \<lparr>posX = 172, posY = 179, scale = 1, angle = 90\<rparr>"
proof -
  have "sqrt ((192 - 192)\<^sup>2 + (375 / 2 - 188)\<^sup>2) = sqrt ((1 / 2)\<^sup>2)"
    by (simp add: power2_eq_square)
  also have "\<dots> = 1 / 2" by (simp add: real_sqrt_abs del: power_divide)
  finally have d: "sqrt ((192 - 192)\<^sup>2 + (375 / 2 - 188)\<^sup>2) < getMinThrustDistance"
    by (simp add: getMinThrustDistance_def THRUST_DISTANCE_def)
  have "onDrag example_env \<lparr>ptX = 192, ptY = 375 / 2\<rparr> (Ship example_env) =
      forward example_env (Ship example_env)"
    by (simp add: onDrag_def example_front example_target_deg Let_def getOrient_def
        getMinTurnAngle_def TURN_ANGLE_def js_sqrt_def js_less_def)
      (simp add: example_Ship)
  with d example_front example_forward show ?thesis by simp
qed

end
